theory Spec2Isabelle
  imports
    Complex_Main
    "HOL-Library.Multiset"
    "HOL-Library.Char_ord"
    "HOL-Library.List_Lexorder"
    "HOL-Library.Product_Lexorder"
    "HOL-Library.Option_ord"
    "HOL-Library.Sublist"
begin

section \<open>Times, segments and Python errors\<close>

text \<open>
  The program is \<^verbatim>\<open>pylal/ligolw_cafe.py\<close>. Times (GPS times and offsets) are
  modelled as exact rationals: the source's conversions between \<^verbatim>\<open>LIGOTimeGPS\<close> and
  \<^verbatim>\<open>float\<close> are taken to be exact. A Python dictionary is modelled by the list of
  its items with distinct keys; an exception is a value \<open>Inl e\<close>.
\<close>

type_synonym instrument = string
type_synonym time = rat
type_synonym segment = "time \<times> time"
type_synonym segmentlist = "segment list"
type_synonym offset_vector = "(instrument \<times> time) list"

datatype py_error = ValueError | ZeroDivisionError | TypeError | AssertionError | AttributeError

subsection \<open>The segment library (\<^verbatim>\<open>glue.segments\<close>)\<close>

text \<open>
  Modelled from the spec: the segment-set library \<^verbatim>\<open>glue.segments\<close> is an external
  collaborator whose source is not part of the repository. Its operations are modelled by
  their contract: a segment is a pair \<open>(lo, hi)\<close>, the constructor orders its two
  arguments, two segments intersect when they overlap on an interval of positive length,
  and two segments are disjoint when a gap separates them.
\<close>

definition segment_mk :: "time \<Rightarrow> time \<Rightarrow> segment" where
  "segment_mk a b = (if a \<le> b then (a, b) else (b, a))"

definition seg_abs :: "segment \<Rightarrow> time" where
  "seg_abs s = snd s - fst s"

definition seg_intersects :: "segment \<Rightarrow> segment \<Rightarrow> bool" where
  "seg_intersects a b \<longleftrightarrow> snd a > fst b \<and> fst a < snd b"

definition seg_disjoint :: "segment \<Rightarrow> segment \<Rightarrow> bool" where
  "seg_disjoint a b \<longleftrightarrow> fst a > snd b \<or> snd a < fst b"

definition seg_protract :: "segment \<Rightarrow> time \<Rightarrow> segment" where
  "seg_protract s x = segment_mk (fst s - x) (snd s + x)"

definition seg_shift :: "segment \<Rightarrow> time \<Rightarrow> segment" where
  "seg_shift s x = (fst s + x, snd s + x)"

definition sl_shift :: "segmentlist \<Rightarrow> time \<Rightarrow> segmentlist" where
  "sl_shift xs x = map (\<lambda>s. seg_shift s x) xs"

text \<open>\<^verbatim>\<open>min\<close> and \<^verbatim>\<open>max\<close> of Python raise \<^verbatim>\<open>ValueError\<close> on an empty sequence.\<close>

fun py_min :: "time list \<Rightarrow> py_error + time" where
  "py_min [] = Inl ValueError"
| "py_min (x # xs) = Inr (fold min xs x)"

fun py_max :: "time list \<Rightarrow> py_error + time" where
  "py_max [] = Inl ValueError"
| "py_max (x # xs) = Inr (fold max xs x)"

text \<open>\<^verbatim>\<open>segmentlist.extent()\<close>: the bounding segment; \<^verbatim>\<open>ValueError\<close> on an empty list.\<close>

fun sl_extent :: "segmentlist \<Rightarrow> py_error + segment" where
  "sl_extent [] = Inl ValueError"
| "sl_extent (s # xs) = Inr (segment_mk (fold min (map fst xs) (fst s)) (fold max (map snd xs) (snd s)))"

definition sl_intersects :: "segmentlist \<Rightarrow> segmentlist \<Rightarrow> bool" where
  "sl_intersects xs ys \<longleftrightarrow> list_ex (\<lambda>a. list_ex (\<lambda>b. seg_intersects a b) ys) xs"

definition sl_intersects_segment :: "segmentlist \<Rightarrow> segment \<Rightarrow> bool" where
  "sl_intersects_segment xs s \<longleftrightarrow> list_ex (\<lambda>a. seg_intersects a s) xs"

text \<open>
  \<^verbatim>\<open>segmentlist.coalesce()\<close>: sort, merge segments that overlap or touch, drop
  segments of zero length.
\<close>

fun merge_sorted :: "segment \<Rightarrow> segmentlist \<Rightarrow> segmentlist" where
  "merge_sorted (lo, hi) [] = (if lo \<noteq> hi then [(lo, hi)] else [])"
| "merge_sorted (lo, hi) (s # xs) =
     (if hi \<ge> fst s then merge_sorted (lo, max hi (snd s)) xs
      else (if lo \<noteq> hi then [(lo, hi)] else []) @ merge_sorted s xs)"

definition coalesce :: "segmentlist \<Rightarrow> segmentlist" where
  "coalesce xs = (case sort xs of [] \<Rightarrow> [] | s # ys \<Rightarrow> merge_sorted s ys)"

definition sl_or :: "segmentlist \<Rightarrow> segmentlist \<Rightarrow> segmentlist" where
  "sl_or xs ys = coalesce (xs @ ys)"

definition sl_and :: "segmentlist \<Rightarrow> segmentlist \<Rightarrow> segmentlist" where
  "sl_and xs ys =
     concat (map (\<lambda>a. map (\<lambda>b. (max (fst a) (fst b), min (snd a) (snd b)))
                           (filter (\<lambda>b. seg_intersects a b) ys)) xs)"

text \<open>
  A clipping window of \<^verbatim>\<open>split_bins\<close>: a segment whose lower bound may be
  \<^verbatim>\<open>-segments.infinity()\<close> and whose upper bound may be \<^verbatim>\<open>+segments.infinity()\<close>,
  written \<open>None\<close>. \<open>sl_clip\<close> is the intersection of a segment list with the
  one-segment list of a window.
\<close>

type_synonym window = "time option \<times> time option"

definition above_lo :: "time option \<Rightarrow> time \<Rightarrow> bool" where
  "above_lo w t = (case w of None \<Rightarrow> True | Some c \<Rightarrow> c < t)"

definition below_hi :: "time option \<Rightarrow> time \<Rightarrow> bool" where
  "below_hi w t = (case w of None \<Rightarrow> True | Some c \<Rightarrow> t < c)"

definition clip_lo :: "time option \<Rightarrow> time \<Rightarrow> time" where
  "clip_lo w t = (case w of None \<Rightarrow> t | Some c \<Rightarrow> max c t)"

definition clip_hi :: "time option \<Rightarrow> time \<Rightarrow> time" where
  "clip_hi w t = (case w of None \<Rightarrow> t | Some c \<Rightarrow> min c t)"

definition sl_clip :: "segmentlist \<Rightarrow> window \<Rightarrow> segmentlist" where
  "sl_clip xs w =
     map (\<lambda>s. (clip_lo (fst w) (fst s), clip_hi (snd w) (snd s)))
         (filter (\<lambda>s. above_lo (fst w) (snd s) \<and> below_hi (snd w) (fst s)) xs)"

subsection \<open>Segment-list dictionaries\<close>

text \<open>
  Modelled from the spec: \<^verbatim>\<open>glue.segments.segmentlistdict\<close>, a dictionary from
  instruments to segment lists with an \<^verbatim>\<open>offsets\<close> dictionary over the same keys.
  An item \<open>(k, off, xs)\<close> holds the offset currently applied to key \<open>k\<close> and the segment
  list as currently shifted. Assigning an offset shifts the list by the difference to the
  current offset; keys absent from the dictionary are ignored by \<^verbatim>\<open>offsets.update\<close>.
\<close>

type_synonym segmentlistdict = "(instrument \<times> time \<times> segmentlist) list"

definition sld_keys :: "segmentlistdict \<Rightarrow> instrument list" where
  "sld_keys d = map fst d"

definition sld_values :: "segmentlistdict \<Rightarrow> segmentlist list" where
  "sld_values d = map (\<lambda>(k, off, xs). xs) d"

definition sld_get :: "segmentlistdict \<Rightarrow> instrument \<Rightarrow> segmentlist option" where
  "sld_get d k = map_option snd (map_of d k)"

definition offsets_set :: "segmentlistdict \<Rightarrow> instrument \<Rightarrow> time \<Rightarrow> segmentlistdict" where
  "offsets_set d k v =
     map (\<lambda>(k', off, xs). if k' = k then (k', v, sl_shift xs (v - off)) else (k', off, xs)) d"

definition offsets_update :: "segmentlistdict \<Rightarrow> offset_vector \<Rightarrow> segmentlistdict" where
  "offsets_update d v = fold (\<lambda>(k, x) d'. offsets_set d' k x) v d"

definition offsets_clear :: "segmentlistdict \<Rightarrow> segmentlistdict" where
  "offsets_clear d = map (\<lambda>(k, off, xs). (k, 0, sl_shift xs (0 - off))) d"

text \<open>
  \<^verbatim>\<open>is_coincident(other, keys)\<close>: some list of \<open>self\<close> under a key of \<open>keys\<close>
  intersects some list of \<open>other\<close> under a key of \<open>keys\<close>; the two keys need not be
  the same.
\<close>

definition restrict_keys :: "segmentlistdict \<Rightarrow> instrument list \<Rightarrow> segmentlist list" where
  "restrict_keys d keys = sld_values (filter (\<lambda>(k, off, xs). k \<in> set keys) d)"

definition is_coincident :: "segmentlistdict \<Rightarrow> segmentlistdict \<Rightarrow> instrument list \<Rightarrow> bool" where
  "is_coincident self other keys \<longleftrightarrow>
     list_ex (\<lambda>a. list_ex (\<lambda>b. sl_intersects a b) (restrict_keys other keys))
             (restrict_keys self keys)"

text \<open>\<^verbatim>\<open>extent_all()\<close>: the bounding segment of all non-empty lists; \<^verbatim>\<open>ValueError\<close> when there is none.\<close>

definition extents_of :: "segmentlistdict \<Rightarrow> segment list" where
  "extents_of d =
     concat (map (\<lambda>xs. case sl_extent xs of Inl e \<Rightarrow> [] | Inr s \<Rightarrow> [s]) (sld_values d))"

definition extent_all :: "segmentlistdict \<Rightarrow> py_error + segment" where
  "extent_all d =
     (case extents_of d of
        [] \<Rightarrow> Inl ValueError
      | s # segs \<Rightarrow> Inr (segment_mk (fold min (map fst segs) (fst s)) (fold max (map snd segs) (snd s))))"

text \<open>\<^verbatim>\<open>self |= other\<close>: union key by key; a new key starts with offset zero.\<close>

definition sld_ior1 :: "segmentlistdict \<Rightarrow> instrument \<Rightarrow> segmentlist \<Rightarrow> segmentlistdict" where
  "sld_ior1 d k ys =
     (if k \<in> set (sld_keys d)
      then map (\<lambda>(k', off, xs). if k' = k then (k', off, sl_or xs ys) else (k', off, xs)) d
      else d @ [(k, 0, ys)])"

definition sld_ior :: "segmentlistdict \<Rightarrow> segmentlistdict \<Rightarrow> segmentlistdict" where
  "sld_ior self other = fold (\<lambda>(k, off, ys) d. sld_ior1 d k ys) other self"

text \<open>
  \<^verbatim>\<open>intersects_all(other)\<close>: every list of \<open>other\<close> intersects the list of \<open>self\<close>
  under the same key, and \<open>other\<close> is not empty.
\<close>

definition intersects_all :: "segmentlistdict \<Rightarrow> segmentlistdict \<Rightarrow> bool" where
  "intersects_all self other \<longleftrightarrow>
     list_all (\<lambda>(k, off, ys). case sld_get self k of None \<Rightarrow> False | Some xs \<Rightarrow> sl_intersects xs ys) other
     \<and> other \<noteq> []"

definition sld_intersects_segment :: "segmentlistdict \<Rightarrow> segment \<Rightarrow> bool" where
  "sld_intersects_segment d s \<longleftrightarrow> list_ex (\<lambda>xs. sl_intersects_segment xs s) (sld_values d)"

section \<open>Cache entries, bins and the packer\<close>

text \<open>
  Modelled from the spec: an entry (\<^verbatim>\<open>glue.lal.CacheEntry\<close>, an external class) is a file
  reference with a mapping from instruments to segment lists, read by
  \<^verbatim>\<open>to_segmentlistdict()\<close>, and one bounding segment \<^verbatim>\<open>.segment\<close>, which may be
  \<^verbatim>\<open>None\<close>.
\<close>

record cache_entry =
  url :: string
  seglists :: "(instrument \<times> segmentlist) list"
  segment :: "segment option"

definition to_segmentlistdict :: "cache_entry \<Rightarrow> segmentlistdict" where
  "to_segmentlistdict c = map (\<lambda>(k, xs). (k, 0, xs)) (seglists c)"

text \<open>
  \<^verbatim>\<open>LALCacheBin\<close>. Modelled from the spec: its base class \<^verbatim>\<open>packing.Bin\<close> is not among
  the sources; \<^verbatim>\<open>add\<close> appends the entry to the members and unions its segments into
  \<^verbatim>\<open>size\<close>, \<^verbatim>\<open>+=\<close> unions the members and the sizes of two bins. The subclass
  recomputes \<^verbatim>\<open>extent\<close> after both, which raises when the size has no segment.
\<close>

record bin =
  objects :: "cache_entry list"
  bin_size :: segmentlistdict
  extent :: "segment option"

definition LALCacheBin :: bin where
  "LALCacheBin = \<lparr>objects = [], bin_size = [], extent = None\<rparr>"

definition bin_add :: "bin \<Rightarrow> cache_entry \<Rightarrow> segmentlistdict \<Rightarrow> py_error + bin" where
  "bin_add b obj sz =
     (let s = sld_ior (bin_size b) sz in
      case extent_all s of
        Inl e \<Rightarrow> Inl e
      | Inr x \<Rightarrow> Inr \<lparr>objects = objects b @ [obj], bin_size = s, extent = Some x\<rparr>)"

definition bin_iadd :: "bin \<Rightarrow> bin \<Rightarrow> py_error + bin" where
  "bin_iadd b other =
     (let s = sld_ior (bin_size b) (bin_size other) in
      case extent_all s of
        Inl e \<Rightarrow> Inl e
      | Inr x \<Rightarrow> Inr \<lparr>objects = objects b @ objects other, bin_size = s, extent = Some x\<rparr>)"

text \<open>
  \<^verbatim>\<open>CafePacker\<close> after \<^verbatim>\<open>set_offset_vectors\<close>: the bin list, the sorted offset
  vectors and \<^verbatim>\<open>max_gap\<close>. Before configuration a packer is its bin list alone.
\<close>

record packer =
  bins :: "bin list"
  offset_vectors :: "offset_vector list"
  max_gap :: time

text \<open>
  \<^verbatim>\<open>set_offset_vectors\<close>. The sort key of a vector is the sorted list of its items. The
  minima and maxima are taken vector by vector; \<^verbatim>\<open>min\<close> of an empty sequence raises.
\<close>

fun collect :: "('a \<Rightarrow> py_error + 'b) \<Rightarrow> 'a list \<Rightarrow> py_error + 'b list" where
  "collect f [] = Inr []"
| "collect f (x # xs) =
     (case f x of
        Inl e \<Rightarrow> Inl e
      | Inr y \<Rightarrow> (case collect f xs of Inl e \<Rightarrow> Inl e | Inr ys \<Rightarrow> Inr (y # ys)))"

definition min_offset_of :: "offset_vector list \<Rightarrow> py_error + time" where
  "min_offset_of vs =
     (case collect (\<lambda>v. py_min (map snd v)) vs of Inl e \<Rightarrow> Inl e | Inr ms \<Rightarrow> py_min ms)"

definition max_offset_of :: "offset_vector list \<Rightarrow> py_error + time" where
  "max_offset_of vs =
     (case collect (\<lambda>v. py_max (map snd v)) vs of Inl e \<Rightarrow> Inl e | Inr ms \<Rightarrow> py_max ms)"

definition set_offset_vectors :: "bin list \<Rightarrow> offset_vector list \<Rightarrow> py_error + packer" where
  "set_offset_vectors bs vs =
     (let ovs = sort_key (\<lambda>v. sort v) vs in
      case min_offset_of vs of
        Inl e \<Rightarrow> Inl e
      | Inr min_offset \<Rightarrow>
          (case max_offset_of vs of
             Inl e \<Rightarrow> Inl e
           | Inr max_offset \<Rightarrow>
               (if max_offset - min_offset \<ge> 0
                then Inr \<lparr>bins = bs, offset_vectors = ovs, max_gap = max_offset - min_offset\<rparr>
                else Inl AssertionError)))"

subsection \<open>\<^verbatim>\<open>CafePacker.pack\<close>\<close>

text \<open>
  The inner loop over the offset vectors: both sizes get the vector's offsets, and the loop
  stops at the first vector under which they are coincident on the vector's keys. The
  offsets stay applied to both sizes when the loop ends.
\<close>

fun try_vectors ::
  "offset_vector list \<Rightarrow> segmentlistdict \<Rightarrow> segmentlistdict \<Rightarrow> bool \<times> segmentlistdict \<times> segmentlistdict" where
  "try_vectors [] nsz bsz = (False, nsz, bsz)"
| "try_vectors (v # vs) nsz bsz =
     (let nsz' = offsets_update nsz v; bsz' = offsets_update bsz v in
      if is_coincident bsz' nsz' (map fst v) then (True, nsz', bsz')
      else try_vectors vs nsz' bsz')"

text \<open>
  The scan \<^verbatim>\<open>for n in xrange(len(self.bins) - 1, -1, -1)\<close>: the first argument counts
  the bins still to visit, so the bin visited is \<open>bs ! n\<close>. The scan stops at a bin whose
  extent ends before the start of the new bin's extent less \<^verbatim>\<open>max_gap\<close>. Reading
  \<^verbatim>\<open>extent[1]\<close> of an extent that is \<^verbatim>\<open>None\<close> is a \<^verbatim>\<open>TypeError\<close>.
\<close>

fun scan_bins ::
  "time \<Rightarrow> offset_vector list \<Rightarrow> nat \<Rightarrow> bin list \<Rightarrow> bin \<Rightarrow> nat list
     \<Rightarrow> py_error + (bin list \<times> bin \<times> nat list)" where
  "scan_bins gap ovs 0 bs new matching = Inr (bs, new, matching)"
| "scan_bins gap ovs (Suc n) bs new matching =
     (case (extent (bs ! n), extent new) of
        (Some be, Some ne) \<Rightarrow>
          if snd be < fst ne - gap then Inr (bs, new, matching)
          else
            (case try_vectors ovs (bin_size new) (bin_size (bs ! n)) of
               (hit, nsz, bsz) \<Rightarrow>
                 scan_bins gap ovs n
                   (bs[n := (bs ! n)\<lparr>bin_size := offsets_clear bsz\<rparr>])
                   (new\<lparr>bin_size := nsz\<rparr>)
                   (if hit then matching @ [n] else matching))
      | _ \<Rightarrow> Inl TypeError)"

text \<open>
  \<^verbatim>\<open>for n in matching_bins: dest += self.bins.pop(n)\<close>. \<open>d\<close> is the position of
  \<^verbatim>\<open>dest\<close> in the list; popping a bin before it moves it down by one.
\<close>

definition pop :: "'a list \<Rightarrow> nat \<Rightarrow> 'a list" where
  "pop xs n = take n xs @ drop (Suc n) xs"

fun merge_matching :: "nat \<Rightarrow> nat list \<Rightarrow> bin list \<Rightarrow> py_error + bin list" where
  "merge_matching d [] bs = Inr bs"
| "merge_matching d (n # ns) bs =
     (let other = bs ! n; bs' = pop bs n; d' = (if n < d then d - 1 else d) in
      case bin_iadd (bs' ! d') other of
        Inl e \<Rightarrow> Inl e
      | Inr dest \<Rightarrow> merge_matching d' ns (bs'[d' := dest]))"

definition pack :: "packer \<Rightarrow> cache_entry \<Rightarrow> py_error + packer" where
  "pack p cache_entry =
     (case bin_add LALCacheBin cache_entry (to_segmentlistdict cache_entry) of
        Inl e \<Rightarrow> Inl e
      | Inr new0 \<Rightarrow>
          (case scan_bins (max_gap p) (offset_vectors p) (length (bins p)) (bins p) new0 [] of
             Inl e \<Rightarrow> Inl e
           | Inr (bs, new1, matching_bins) \<Rightarrow>
               (let new = new1\<lparr>bin_size := offsets_clear (bin_size new1)\<rparr> in
                case
                  (if matching_bins = [] then Inr (bs @ [new])
                   else
                     (let d = last matching_bins in
                      case bin_iadd (bs ! d) new of
                        Inl e \<Rightarrow> Inl e
                      | Inr dest \<Rightarrow> merge_matching d (butlast matching_bins) (bs[d := dest])))
                of
                  Inl e \<Rightarrow> Inl e
                | Inr bs' \<Rightarrow> Inr (p\<lparr>bins := sort_key extent bs'\<rparr>))))"

fun pack_all :: "packer \<Rightarrow> cache_entry list \<Rightarrow> py_error + packer" where
  "pack_all p [] = Inr p"
| "pack_all p (c # cs) = (case pack p c of Inl e \<Rightarrow> Inl e | Inr p' \<Rightarrow> pack_all p' cs)"

section \<open>\<^verbatim>\<open>split_bins\<close>\<close>

text \<open>
  The float arithmetic of \<^verbatim>\<open>split_bins\<close>. The number of pieces is
  \<^verbatim>\<open>int(math.ceil(float(abs(origbin.extent)) / extentlimit))\<close> and the \<open>i\<close>-th split time
  is \<^verbatim>\<open>LIGOTimeGPS(origbin.extent[0] + i * float(origbin.extent[1] - origbin.extent[0]) / n)\<close>:
  a time is converted to a float, floats are multiplied and divided, and a float is added
  to a time and stored with the resolution of \<^verbatim>\<open>LIGOTimeGPS\<close>. Each of these steps
  rounds, and the roundings are parameters of the model: \<open>float_of x\<close> is
  \<^verbatim>\<open>float(x)\<close>, \<open>float_mul\<close> and \<open>float_div\<close> are the product and the quotient of two
  floats, and \<open>gps_add t x\<close> is \<^verbatim>\<open>LIGOTimeGPS(t + x)\<close> for a time \<open>t\<close> and a float
  \<open>x\<close>. What is proved of \<^verbatim>\<open>split_bins\<close> for every arithmetic holds whatever the
  roundings are. \<open>exact_arith\<close> is the arithmetic without rounding, which float
  arithmetic agrees with where the operands and the results are integers below \<open>2^53\<close>.
\<close>

record float_arith =
  float_of :: "time \<Rightarrow> time"
  float_mul :: "time \<Rightarrow> time \<Rightarrow> time"
  float_div :: "time \<Rightarrow> time \<Rightarrow> time"
  gps_add :: "time \<Rightarrow> time \<Rightarrow> time"

definition exact_arith :: float_arith where
  "exact_arith =
     \<lparr>float_of = (\<lambda>x. x), float_mul = (\<lambda>x y. x * y), float_div = (\<lambda>x y. x / y),
      gps_add = (\<lambda>t x. t + x)\<rparr>"

definition split_count :: "float_arith \<Rightarrow> segment \<Rightarrow> time \<Rightarrow> int" where
  "split_count ar ext extentlimit = \<lceil>float_div ar (float_of ar (seg_abs ext)) extentlimit\<rceil>"

text \<open>
  The clipping windows of a bin of extent \<open>ext\<close> cut in \<open>n\<close> pieces:
  \<^verbatim>\<open>splits = [-infinity] + [LIGOTimeGPS(...) for i in range(1, n)] + [+infinity]\<close>,
  paired by \<^verbatim>\<open>zip(splits[:-1], splits[1:])\<close>; \<^verbatim>\<open>segments.segment(*bounds)\<close> puts
  the two bounds of a pair in order.
\<close>

definition split_times :: "float_arith \<Rightarrow> segment \<Rightarrow> int \<Rightarrow> time list" where
  "split_times ar ext n =
     map (\<lambda>i. gps_add ar (fst ext)
                (float_div ar (float_mul ar (of_int i) (float_of ar (snd ext - fst ext))) (of_int n)))
         [1..n - 1]"

definition window_mk :: "time option \<times> time option \<Rightarrow> window" where
  "window_mk bounds =
     (case bounds of
        (Some a, Some b) \<Rightarrow> if a \<le> b then (Some a, Some b) else (Some b, Some a)
      | _ \<Rightarrow> bounds)"

definition split_windows :: "float_arith \<Rightarrow> segment \<Rightarrow> int \<Rightarrow> window list" where
  "split_windows ar ext n =
     map window_mk
       (zip (None # map Some (split_times ar ext n)) (map Some (split_times ar ext n) @ [None]))"

text \<open>
  One new bin: its size is the size of the original bin clipped to the window, without the
  keys left with an empty list, and its extent is computed from that size, which raises
  \<^verbatim>\<open>ValueError\<close> when nothing is left. It has no members yet.
\<close>

definition sld_clip :: "segmentlistdict \<Rightarrow> window \<Rightarrow> segmentlistdict" where
  "sld_clip d w =
     filter (\<lambda>(k, off, xs). xs \<noteq> []) (map (\<lambda>(k, off, xs). (k, off, sl_clip xs w)) d)"

definition new_bin :: "bin \<Rightarrow> window \<Rightarrow> py_error + bin" where
  "new_bin origbin w =
     (let s = sld_clip (bin_size origbin) w in
      case extent_all s of
        Inl e \<Rightarrow> Inl e
      | Inr x \<Rightarrow> Inr \<lparr>objects = [], bin_size = s, extent = Some x\<rparr>)"

text \<open>
  The loop over the offset vectors for one entry and one new bin: the offsets of each
  vector are applied, on top of those of the vectors before it, until the shifted segments
  of the entry intersect the extent of the bin.
\<close>

fun entry_matches :: "offset_vector list \<Rightarrow> segmentlistdict \<Rightarrow> segment \<Rightarrow> bool" where
  "entry_matches [] segs ext = False"
| "entry_matches (v # vs) segs ext =
     (let segs' = offsets_update segs v in
      if sld_intersects_segment segs' ext then True else entry_matches vs segs' ext)"

text \<open>
  The loop over the members of the original bin, for one new bin of extent \<open>ext\<close>: a
  member whose \<^verbatim>\<open>.segment\<close> is disjoint from the extent protracted by
  \<^verbatim>\<open>max_gap\<close> is skipped, another one is appended when some offset vector matches.
  \<^verbatim>\<open>.disjoint\<close> on a segment that is \<^verbatim>\<open>None\<close> is an \<^verbatim>\<open>AttributeError\<close>.
\<close>

fun fill_bin ::
  "time \<Rightarrow> offset_vector list \<Rightarrow> segment \<Rightarrow> cache_entry list \<Rightarrow> py_error + cache_entry list" where
  "fill_bin gap ovs ext [] = Inr []"
| "fill_bin gap ovs ext (c # cs) =
     (case segment c of
        None \<Rightarrow> Inl AttributeError
      | Some s \<Rightarrow>
          (case fill_bin gap ovs ext cs of
             Inl e \<Rightarrow> Inl e
           | Inr rest \<Rightarrow>
               if seg_disjoint s (seg_protract ext gap) then Inr rest
               else if entry_matches ovs (to_segmentlistdict c) ext then Inr (c # rest)
               else Inr rest))"

definition fill_new_bin ::
  "time \<Rightarrow> offset_vector list \<Rightarrow> cache_entry list \<Rightarrow> bin \<Rightarrow> py_error + bin" where
  "fill_new_bin gap ovs members b =
     (case extent b of
        None \<Rightarrow> Inl AttributeError
      | Some ext \<Rightarrow>
          (case fill_bin gap ovs ext members of
             Inl e \<Rightarrow> Inl e
           | Inr cs \<Rightarrow> Inr (b\<lparr>objects := objects b @ cs\<rparr>)))"

definition split_bin ::
  "float_arith \<Rightarrow> time \<Rightarrow> offset_vector list \<Rightarrow> bin \<Rightarrow> segment \<Rightarrow> int
     \<Rightarrow> py_error + bin list" where
  "split_bin ar gap ovs origbin ext n =
     (case collect (new_bin origbin) (split_windows ar ext n) of
        Inl e \<Rightarrow> Inl e
      | Inr newbins \<Rightarrow> collect (fill_new_bin gap ovs (objects origbin)) newbins)"

text \<open>
  The \<^verbatim>\<open>while idx < len(cafepacker.bins)\<close> loop: the bin at \<open>idx\<close> either stays and
  \<open>idx\<close> moves by one, or is replaced by its new bins and \<open>idx\<close> moves past them. So
  the loop visits each bin of the original list once, in order, and the recursion is on
  the bins not yet visited. \<^verbatim>\<open>abs\<close> of an extent that is \<^verbatim>\<open>None\<close> is a
  \<^verbatim>\<open>TypeError\<close>, the division by a limit of zero a \<^verbatim>\<open>ZeroDivisionError\<close>.
\<close>

fun split_loop ::
  "float_arith \<Rightarrow> time \<Rightarrow> offset_vector list \<Rightarrow> time \<Rightarrow> bin list \<Rightarrow> py_error + bin list" where
  "split_loop ar gap ovs extentlimit [] = Inr []"
| "split_loop ar gap ovs extentlimit (origbin # rest) =
     (case extent origbin of
        None \<Rightarrow> Inl TypeError
      | Some ext \<Rightarrow>
          if extentlimit = 0 then Inl ZeroDivisionError
          else
            (let n = split_count ar ext extentlimit in
             if n \<le> 1 then
               (case split_loop ar gap ovs extentlimit rest of
                  Inl e \<Rightarrow> Inl e
                | Inr bs \<Rightarrow> Inr (origbin # bs))
             else
               (case split_bin ar gap ovs origbin ext n of
                  Inl e \<Rightarrow> Inl e
                | Inr newbins \<Rightarrow>
                    (case split_loop ar gap ovs extentlimit rest of
                       Inl e \<Rightarrow> Inl e
                     | Inr bs \<Rightarrow> Inr (newbins @ bs)))))"

definition split_bins :: "float_arith \<Rightarrow> packer \<Rightarrow> time \<Rightarrow> py_error + packer" where
  "split_bins ar cafepacker extentlimit =
     (case split_loop ar (max_gap cafepacker) (offset_vectors cafepacker) extentlimit (bins cafepacker) of
        Inl e \<Rightarrow> Inl e
      | Inr bs \<Rightarrow> Inr (cafepacker\<lparr>bins := bs\<rparr>))"

section \<open>The driver \<^verbatim>\<open>ligolw_cafe\<close>\<close>

text \<open>\<^verbatim>\<open>cache_to_seglistdict\<close>: the union of the segment lists of all entries.\<close>

definition cache_to_seglistdict :: "cache_entry list \<Rightarrow> segmentlistdict" where
  "cache_to_seglistdict cache = fold (\<lambda>c s. sld_ior s (to_segmentlistdict c)) cache []"

text \<open>
  The epoch is the earliest start of a segment, \<^verbatim>\<open>None\<close> when there is no segment.
  Normalizing subtracts the epoch from every time, unnormalizing adds it back; with no
  segment neither loop has a body to run.
\<close>

definition epoch_of :: "segmentlistdict \<Rightarrow> time option" where
  "epoch_of d =
     (case concat (map (\<lambda>xs. case py_min (map fst xs) of Inl e \<Rightarrow> [] | Inr m \<Rightarrow> [m]) (sld_values d)) of
        [] \<Rightarrow> None
      | m # ms \<Rightarrow> Some (fold min ms m))"

definition segmentlistdict_normalize :: "segmentlistdict \<Rightarrow> time option \<Rightarrow> segmentlistdict" where
  "segmentlistdict_normalize d origin =
     (case origin of
        None \<Rightarrow> d
      | Some t \<Rightarrow> map (\<lambda>(k, off, xs). (k, off, map (\<lambda>seg. segment_mk (fst seg - t) (snd seg - t)) xs)) d)"

definition segmentlistdict_unnormalize :: "segmentlistdict \<Rightarrow> time option \<Rightarrow> segmentlistdict" where
  "segmentlistdict_unnormalize d origin =
     (case origin of
        None \<Rightarrow> d
      | Some t \<Rightarrow> map (\<lambda>(k, off, xs). (k, off, map (\<lambda>seg. segment_mk (t + fst seg) (t + snd seg)) xs)) d)"

text \<open>
  Modelled from the spec: \<^verbatim>\<open>ligolw_tisi.time_slide_component_vectors\<close> and
  \<^verbatim>\<open>llwapp.get_coincident_segmentlistdict\<close> are not among the sources. The first gives
  the two-instrument vectors implied by the configured vectors, each once, with the offset
  of the second instrument relative to the first. The second applies each of them to the
  coverage, intersects the two shifted lists, moves the intersection back by the offset of
  each instrument, and unions the results into the coincident coverage.
\<close>

fun pairs_of :: "'a list \<Rightarrow> ('a \<times> 'a) list" where
  "pairs_of [] = []"
| "pairs_of (x # xs) = map (\<lambda>y. (x, y)) xs @ pairs_of xs"

definition time_slide_component_vectors :: "offset_vector list \<Rightarrow> offset_vector list" where
  "time_slide_component_vectors vs =
     remdups (concat (map (\<lambda>v. map (\<lambda>((i, oi), (j, oj)). [(i, 0), (j, oj - oi)]) (pairs_of (sort v))) vs))"

definition extract_common :: "segmentlistdict \<Rightarrow> instrument list \<Rightarrow> segmentlistdict" where
  "extract_common d keys =
     (case concat (map (\<lambda>k. case sld_get d k of None \<Rightarrow> [] | Some xs \<Rightarrow> [xs]) keys) of
        [] \<Rightarrow> []
      | xs # rest \<Rightarrow>
          filter (\<lambda>(k, off, ys). k \<in> set keys) (map (\<lambda>(k, off, ys). (k, off, fold (\<lambda>zs acc. sl_and acc zs) rest xs)) d))"

fun coincident_loop ::
  "offset_vector list \<Rightarrow> segmentlistdict \<Rightarrow> segmentlistdict \<Rightarrow> segmentlistdict" where
  "coincident_loop [] d coinc = coinc"
| "coincident_loop (v # vs) d coinc =
     (let d' = offsets_update d v;
          intersection = offsets_clear (extract_common d' (map fst v))
      in coincident_loop vs d' (sld_ior coinc intersection))"

definition get_coincident_segmentlistdict ::
  "segmentlistdict \<Rightarrow> offset_vector list \<Rightarrow> segmentlistdict" where
  "get_coincident_segmentlistdict d vs = coincident_loop vs d []"

text \<open>
  \<^verbatim>\<open>ligolw_cafe(cache, offset_vectors, extentlimit)\<close>. The entries are filtered with
  \<^verbatim>\<open>intersects_all\<close> against the coincident coverage, sorted by \<^verbatim>\<open>.segment\<close>,
  packed one by one, and the bins are split when a limit is given. Modelled from the spec:
  the final sort of the members of each bin is by their bounding segment (the order of
  \<^verbatim>\<open>CacheEntry\<close> is external).
\<close>

definition coincident_coverage :: "cache_entry list \<Rightarrow> offset_vector list \<Rightarrow> segmentlistdict" where
  "coincident_coverage cache vs =
     (let coverage = cache_to_seglistdict cache;
          epoch = epoch_of coverage;
          normalized = segmentlistdict_normalize coverage epoch;
          components = filter (\<lambda>v. set (map fst v) \<subseteq> set (sld_keys normalized))
                              (time_slide_component_vectors vs)
      in segmentlistdict_unnormalize (get_coincident_segmentlistdict normalized components) epoch)"

definition filter_cache :: "segmentlistdict \<Rightarrow> cache_entry list \<Rightarrow> cache_entry list" where
  "filter_cache coverage cache = filter (\<lambda>c. intersects_all coverage (to_segmentlistdict c)) cache"

definition ligolw_cafe ::
  "float_arith \<Rightarrow> cache_entry list \<Rightarrow> offset_vector list \<Rightarrow> time option
     \<Rightarrow> py_error + (segmentlistdict \<times> bin list)" where
  "ligolw_cafe ar cache vs extentlimit =
     (let coverage = coincident_coverage cache vs;
          cache' = sort_key segment (filter_cache coverage cache)
      in case set_offset_vectors [] vs of
           Inl e \<Rightarrow> Inl e
         | Inr packer0 \<Rightarrow>
             (case pack_all packer0 cache' of
                Inl e \<Rightarrow> Inl e
              | Inr packer1 \<Rightarrow>
                  (case (case extentlimit of None \<Rightarrow> Inr packer1 | Some l \<Rightarrow> split_bins ar packer1 l) of
                     Inl e \<Rightarrow> Inl e
                   | Inr packer2 \<Rightarrow>
                       Inr (coverage, map (\<lambda>b. b\<lparr>objects := sort_key segment (objects b)\<rparr>) (bins packer2)))))"

text \<open>The set of all offsets of all vectors, the spec's side of \<^verbatim>\<open>max_gap\<close>.\<close>

definition all_offsets :: "offset_vector list \<Rightarrow> time set" where
  "all_offsets vs = (\<Union>v\<in>set vs. snd ` set v)"

section \<open>Vocabulary of the properties\<close>

text \<open>
  \<^verbatim>\<open>LALCacheBin.__cmp__\<close> compares the extents: tuples are compared first by their
  start and then by their end, and \<^verbatim>\<open>None\<close> comes before every tuple.
\<close>

definition extent_le :: "segment option \<Rightarrow> segment option \<Rightarrow> bool" where
  "extent_le a b =
     (case a of
        None \<Rightarrow> True
      | Some (s1, e1) \<Rightarrow>
          (case b of None \<Rightarrow> False | Some (s2, e2) \<Rightarrow> s1 < s2 \<or> (s1 = s2 \<and> e1 \<le> e2)))"

text \<open>Entries and packers used to instantiate the theorems.\<close>

definition entry :: "string \<Rightarrow> instrument \<Rightarrow> time \<Rightarrow> time \<Rightarrow> cache_entry" where
  "entry n i a b = \<lparr>url = n, seglists = [(i, [(a, b)])], segment = Some (a, b)\<rparr>"

definition zero_lag_XY :: packer where
  "zero_lag_XY = \<lparr>bins = [], offset_vectors = [[(''X'', 0), (''Y'', 0)]], max_gap = 0\<rparr>"

text \<open>The members of all bins of a bin list, and the bins \<^verbatim>\<open>pack\<close> finds to match an entry.\<close>

definition members :: "bin list \<Rightarrow> cache_entry list" where
  "members bs = concat (map objects bs)"

definition matching_bins :: "packer \<Rightarrow> cache_entry \<Rightarrow> nat list" where
  "matching_bins p c =
     (case bin_add LALCacheBin c (to_segmentlistdict c) of
        Inl e \<Rightarrow> []
      | Inr new0 \<Rightarrow>
          (case scan_bins (max_gap p) (offset_vectors p) (length (bins p)) (bins p) new0 [] of
             Inl e \<Rightarrow> []
           | Inr (bs, new1, mb) \<Rightarrow> mb))"

text \<open>
  The packing stage of \<^verbatim>\<open>ligolw_cafe\<close>: the time-sort of the filtered entries, the
  configuration of the packer, the \<^verbatim>\<open>pack\<close> calls, the optional split and the sort of
  the members of each bin.
\<close>

definition pack_stage ::
  "float_arith \<Rightarrow> cache_entry list \<Rightarrow> offset_vector list \<Rightarrow> time option \<Rightarrow> py_error + bin list" where
  "pack_stage ar cache vs extentlimit =
     (case set_offset_vectors [] vs of
        Inl e \<Rightarrow> Inl e
      | Inr packer0 \<Rightarrow>
          (case pack_all packer0 (sort_key segment cache) of
             Inl e \<Rightarrow> Inl e
           | Inr packer1 \<Rightarrow>
               (case (case extentlimit of None \<Rightarrow> Inr packer1 | Some l \<Rightarrow> split_bins ar packer1 l) of
                  Inl e \<Rightarrow> Inl e
                | Inr packer2 \<Rightarrow>
                    Inr (map (\<lambda>b. b\<lparr>objects := sort_key segment (objects b)\<rparr>) (bins packer2)))))"















text \<open>
  Scenario B of the spec: two offset vectors and two entries that are coincident only
  under the second vector, and the packer that packing them leaves, with its one bin.
\<close>

definition scenario_b_vectors :: "offset_vector list" where
  "scenario_b_vectors = [[(''X'', 0), (''Y'', 0)], [(''X'', 0), (''Y'', - 1000)]]"

definition scenario_b_cache :: "cache_entry list" where
  "scenario_b_cache = [entry ''e1'' ''X'' 0 10, entry ''e2'' ''Y'' 1005 1015]"

definition scenario_b_bin :: bin where
  "scenario_b_bin =
     \<lparr>objects = [entry ''e1'' ''X'' 0 10, entry ''e2'' ''Y'' 1005 1015],
      bin_size = [(''X'', 0, [(0, 10)]), (''Y'', 0, [(1005, 1015)])],
      extent = Some (0, 1015)\<rparr>"

definition scenario_b_packer :: packer where
  "scenario_b_packer =
     \<lparr>bins = [scenario_b_bin],
      offset_vectors = [[(''X'', 0), (''Y'', - 1000)], [(''X'', 0), (''Y'', 0)]],
      max_gap = 1000\<rparr>"

text \<open>
  An entry with no segment data has an empty segment list for each of its instruments. An
  entry is kept by the filter of \<^verbatim>\<open>ligolw_cafe\<close> when \<^verbatim>\<open>intersects_all\<close> holds between
  the coincident coverage and its own segment lists.
\<close>

definition no_segment_data :: "cache_entry \<Rightarrow> bool" where
  "no_segment_data c \<longleftrightarrow> list_all (\<lambda>(k, xs). xs = []) (seglists c)"

definition kept :: "segmentlistdict \<Rightarrow> cache_entry \<Rightarrow> bool" where
  "kept coverage c \<longleftrightarrow> intersects_all coverage (to_segmentlistdict c)"


text \<open>The cache of scenario A with one more entry that has no segment data.\<close>

definition no_data_entry :: cache_entry where
  "no_data_entry = \<lparr>url = ''e0'', seglists = [(''X'', [])], segment = None\<rparr>"

definition scenario_cache :: "cache_entry list" where
  "scenario_cache =
     [entry ''e3'' ''X'' 1000 1010, no_data_entry, entry ''e2'' ''Y'' 5 15, entry ''e1'' ''X'' 0 10]"

text \<open>
  Two entries are coincident on an instrument under an offset vector when the vector names
  the instrument, both entries have a segment list for it, and the two lists, shifted by
  the vector, intersect. Two entries are in the same bin of a bin list when some bin has
  both as members.
\<close>

definition coincident_on :: "offset_vector \<Rightarrow> instrument \<Rightarrow> cache_entry \<Rightarrow> cache_entry \<Rightarrow> bool" where
  "coincident_on v k a b \<longleftrightarrow>
     k \<in> set (map fst v) \<and>
     (case sld_get (offsets_update (to_segmentlistdict a) v) k of
        None \<Rightarrow> False
      | Some xs \<Rightarrow>
          (case sld_get (offsets_update (to_segmentlistdict b) v) k of
             None \<Rightarrow> False
           | Some ys \<Rightarrow> sl_intersects xs ys))"

definition same_bin :: "bin list \<Rightarrow> cache_entry \<Rightarrow> cache_entry \<Rightarrow> bool" where
  "same_bin bs a b \<longleftrightarrow> list_ex (\<lambda>bin. a \<in> set (objects bin) \<and> b \<in> set (objects bin)) bs"

text \<open>
  One offset vector over three instruments and six entries, given in time order, with the
  bins that packing the first four of them leaves and the candidate bin of the fifth.
\<close>

definition slide_vector :: offset_vector where
  "slide_vector = [(''X'', 0), (''Y'', 100), (''Z'', 50)]"

definition slide_cache :: "cache_entry list" where
  "slide_cache =
     [entry ''a'' ''Y'' (- 40) (- 30), entry ''b'' ''Z'' 0 5, entry ''c'' ''X'' 50 55,
      entry ''d'' ''X'' 60 500, entry ''e'' ''Y'' 350 360, entry ''f'' ''X'' 450 460]"

definition slide_packer :: packer where
  "slide_packer = \<lparr>bins = [], offset_vectors = [slide_vector], max_gap = 100\<rparr>"


definition slide_bins :: "bin list" where
  "slide_bins =
     [\<lparr>objects = [entry ''a'' ''Y'' (- 40) (- 30), entry ''d'' ''X'' 60 500],
       bin_size = [(''Y'', 0, [(- 40, - 30)]), (''X'', 0, [(60, 500)])],
       extent = Some (- 40, 500)\<rparr>,
      \<lparr>objects = [entry ''b'' ''Z'' 0 5, entry ''c'' ''X'' 50 55],
       bin_size = [(''Z'', 0, [(0, 5)]), (''X'', 0, [(50, 55)])],
       extent = Some (0, 55)\<rparr>]"

definition candidate :: bin where
  "candidate =
     \<lparr>objects = [entry ''e'' ''Y'' 350 360], bin_size = [(''Y'', 0, [(350, 360)])],
      extent = Some (350, 360)\<rparr>"

section \<open>Properties of \<^verbatim>\<open>set_offset_vectors\<close>\<close>

lemma py_min_Min: "xs \<noteq> [] \<Longrightarrow> py_min xs = Inr (Min (set xs))"
  by (cases xs) (simp_all add: Min.set_eq_fold[symmetric] del: set_simps)

lemma py_max_Max: "xs \<noteq> [] \<Longrightarrow> py_max xs = Inr (Max (set xs))"
  by (cases xs) (simp_all add: Max.set_eq_fold[symmetric] del: set_simps)

lemma collect_all_Inr:
  "\<forall>x\<in>set xs. f x = Inr (g x) \<Longrightarrow> collect f xs = Inr (map g xs)"
  by (induction xs) simp_all

lemma collect_Inl:
  assumes "x \<in> set xs" and "f x = Inl e"
    and same: "\<And>y e'. y \<in> set xs \<Longrightarrow> f y = Inl e' \<Longrightarrow> e' = e"
  shows "collect f xs = Inl e"
  using assms(1) same
proof (induction xs)
  case Nil
  then show ?case by simp
next
  case (Cons a xs)
  show ?case
  proof (cases "f a")
    case (Inl e')
    have "e' = e" by (rule Cons.prems(2)[OF _ Inl]) simp
    with Inl show ?thesis by simp
  next
    case (Inr y)
    with Cons.prems(1) assms(2) have mem: "x \<in> set xs" by auto
    have "collect f xs = Inl e"
    proof (rule Cons.IH[OF mem])
      fix y e' assume "y \<in> set xs" "f y = Inl e'"
      then show "e' = e" using Cons.prems(2)[of y e'] by simp
    qed
    with Inr show ?thesis by simp
  qed
qed

lemma Min_of_Mins:
  assumes "vs \<noteq> []" "\<forall>v\<in>set vs. v \<noteq> []"
  shows "Min (set (map (\<lambda>v. Min (set (map snd v))) vs)) = Min (all_offsets vs)"
proof (rule Min_eqI)
  show "finite (set (map (\<lambda>v. Min (set (map snd v))) vs))" by simp
next
  fix y assume "y \<in> set (map (\<lambda>v. Min (set (map snd v))) vs)"
  then obtain v where v: "v \<in> set vs" "y = Min (snd ` set v)" by auto
  have "Min (all_offsets vs) \<le> Min (snd ` set v)"
    using v assms by (intro Min_antimono) (auto simp: all_offsets_def)
  then show "Min (all_offsets vs) \<le> y" using v by simp
next
  have fin: "finite (all_offsets vs)" by (simp add: all_offsets_def)
  have ne: "all_offsets vs \<noteq> {}" using assms by (cases vs) (auto simp: all_offsets_def)
  from Min_in[OF fin ne] obtain v where v: "v \<in> set vs" "Min (all_offsets vs) \<in> snd ` set v"
    by (auto simp: all_offsets_def)
  have "Min (snd ` set v) \<le> Min (all_offsets vs)" using v by (intro Min_le) auto
  moreover have "Min (all_offsets vs) \<le> Min (snd ` set v)"
    using v assms by (intro Min_antimono) (auto simp: all_offsets_def)
  ultimately have "Min (all_offsets vs) = Min (snd ` set v)" by simp
  then show "Min (all_offsets vs) \<in> set (map (\<lambda>v. Min (set (map snd v))) vs)"
    using v by auto
qed

lemma Max_of_Maxs:
  assumes "vs \<noteq> []" "\<forall>v\<in>set vs. v \<noteq> []"
  shows "Max (set (map (\<lambda>v. Max (set (map snd v))) vs)) = Max (all_offsets vs)"
proof (rule Max_eqI)
  show "finite (set (map (\<lambda>v. Max (set (map snd v))) vs))" by simp
next
  fix y assume "y \<in> set (map (\<lambda>v. Max (set (map snd v))) vs)"
  then obtain v where v: "v \<in> set vs" "y = Max (snd ` set v)" by auto
  have "Max (snd ` set v) \<le> Max (all_offsets vs)"
    using v assms by (intro Max_mono) (auto simp: all_offsets_def)
  then show "y \<le> Max (all_offsets vs)" using v by simp
next
  have fin: "finite (all_offsets vs)" by (simp add: all_offsets_def)
  have ne: "all_offsets vs \<noteq> {}" using assms by (cases vs) (auto simp: all_offsets_def)
  from Max_in[OF fin ne] obtain v where v: "v \<in> set vs" "Max (all_offsets vs) \<in> snd ` set v"
    by (auto simp: all_offsets_def)
  have "Max (all_offsets vs) \<le> Max (snd ` set v)" using v by (intro Max_ge) auto
  moreover have "Max (snd ` set v) \<le> Max (all_offsets vs)"
    using v assms by (intro Max_mono) (auto simp: all_offsets_def)
  ultimately have "Max (all_offsets vs) = Max (snd ` set v)" by simp
  then show "Max (all_offsets vs) \<in> set (map (\<lambda>v. Max (set (map snd v))) vs)"
    using v by auto
qed

lemma min_offset_of_ok:
  assumes "vs \<noteq> []" "\<forall>v\<in>set vs. v \<noteq> []"
  shows "min_offset_of vs = Inr (Min (all_offsets vs))"
proof -
  have "collect (\<lambda>v. py_min (map snd v)) vs = Inr (map (\<lambda>v. Min (set (map snd v))) vs)"
    using assms by (intro collect_all_Inr) (simp add: py_min_Min)
  then show ?thesis
    using assms by (simp add: min_offset_of_def py_min_Min Min_of_Mins del: set_map)
qed

lemma max_offset_of_ok:
  assumes "vs \<noteq> []" "\<forall>v\<in>set vs. v \<noteq> []"
  shows "max_offset_of vs = Inr (Max (all_offsets vs))"
proof -
  have "collect (\<lambda>v. py_max (map snd v)) vs = Inr (map (\<lambda>v. Max (set (map snd v))) vs)"
    using assms by (intro collect_all_Inr) (simp add: py_max_Max)
  then show ?thesis
    using assms by (simp add: max_offset_of_def py_max_Max Max_of_Maxs del: set_map)
qed

lemma min_offset_of_fail:
  assumes "vs = [] \<or> (\<exists>v\<in>set vs. v = [])"
  shows "min_offset_of vs = Inl ValueError"
proof (cases "vs = []")
  case True
  then show ?thesis by (simp add: min_offset_of_def)
next
  case False
  with assms obtain v where v: "v \<in> set vs" "v = []" by auto
  have "collect (\<lambda>v. py_min (map snd v)) vs = Inl ValueError"
  proof (rule collect_Inl[OF v(1)])
    show "py_min (map snd v) = Inl ValueError" using v by simp
  next
    fix y e' assume "y \<in> set vs" "py_min (map snd y) = Inl e'"
    then show "e' = ValueError" by (cases "map snd y") simp_all
  qed
  then show ?thesis by (simp add: min_offset_of_def)
qed

lemma offsets_spread_nonneg:
  assumes "vs \<noteq> []" "\<forall>v\<in>set vs. v \<noteq> []"
  shows "Min (all_offsets vs) \<le> Max (all_offsets vs)"
proof -
  have fin: "finite (all_offsets vs)" by (simp add: all_offsets_def)
  have ne: "all_offsets vs \<noteq> {}" using assms by (cases vs) (auto simp: all_offsets_def)
  show ?thesis using fin ne by (simp add: Min_le_iff) 
qed

lemma set_offset_vectors_cases:
  "(vs = [] \<or> (\<exists>v\<in>set vs. v = [])) \<and> set_offset_vectors bs vs = Inl ValueError
   \<or> (vs \<noteq> [] \<and> (\<forall>v\<in>set vs. v \<noteq> []) \<and> set_offset_vectors bs vs =
        Inr \<lparr>bins = bs, offset_vectors = sort_key (\<lambda>v. sort v) vs,
             max_gap = Max (all_offsets vs) - Min (all_offsets vs)\<rparr>)"
proof (cases "vs = [] \<or> (\<exists>v\<in>set vs. v = [])")
  case True
  then show ?thesis by (simp add: set_offset_vectors_def min_offset_of_fail)
next
  case False
  then have ok: "vs \<noteq> []" "\<forall>v\<in>set vs. v \<noteq> []" by auto
  show ?thesis
    using ok offsets_spread_nonneg[OF ok]
    by (simp add: set_offset_vectors_def min_offset_of_ok max_offset_of_ok)
qed


text \<open>
  Claim C8, as amended. Configuring with an empty list of offset vectors, or with a list
  that contains an empty offset vector, fails with \<^verbatim>\<open>ValueError\<close>. For every
  non-empty list of non-empty offset vectors configuration
  succeeds, keeps the bin list, stores the vectors sorted by their sorted items and stores
  \<^verbatim>\<open>max_gap\<close> equal to the maximum offset of all vectors minus the minimum offset of
  all vectors.
\<close>

theorem set_offset_vectors_configures:
  "(vs = [] \<or> (\<exists>v\<in>set vs. v = []) \<longrightarrow> set_offset_vectors bs vs = Inl ValueError) \<and>
   (vs \<noteq> [] \<and> (\<forall>v\<in>set vs. v \<noteq> []) \<longrightarrow>
      set_offset_vectors bs vs =
        Inr \<lparr>bins = bs, offset_vectors = sort_key (\<lambda>v. sort v) vs,
             max_gap = Max (all_offsets vs) - Min (all_offsets vs)\<rparr>)"
  using set_offset_vectors_cases[of vs bs] by auto

theorem set_offset_vectors_configures_witness:
  "set_offset_vectors [] [[(''X'', 0), (''Y'', - 1000)], [(''X'', 5)]] =
     Inr \<lparr>bins = [], offset_vectors = [[(''X'', 0), (''Y'', - 1000)], [(''X'', 5)]], max_gap = 1005\<rparr>
   \<and> set_offset_vectors [] [] = Inl ValueError
   \<and> set_offset_vectors [] [[(''X'', 5)], []] = Inl ValueError"
proof -
  let ?vs = "[[(''X'', 0), (''Y'', - 1000)], [(''X'', 5)]] :: offset_vector list"
  have ne: "?vs \<noteq> [] \<and> (\<forall>v\<in>set ?vs. v \<noteq> [])" by simp
  have srt: "sort_key (\<lambda>v. sort v) ?vs = ?vs" by code_simp
  have gap: "Max (all_offsets ?vs) - Min (all_offsets ?vs) = 1005" by (simp add: all_offsets_def)
  from set_offset_vectors_configures[of ?vs "[]"] ne srt gap
  have "set_offset_vectors [] ?vs = Inr \<lparr>bins = [], offset_vectors = ?vs, max_gap = 1005\<rparr>"
    by simp
  moreover from set_offset_vectors_configures[of "[]" "[]"]
  have "set_offset_vectors [] [] = Inl ValueError" by simp
  moreover from set_offset_vectors_configures[of "[[(''X'', 5)], []]" "[]"]
  have "set_offset_vectors [] [[(''X'', 5)], []] = Inl ValueError" by simp
  ultimately show ?thesis by simp
qed

text \<open>
  Claim C8 as stated fails: the list holding the one empty offset vector is not empty, and
  configuring with it raises \<^verbatim>\<open>ValueError\<close>, since \<^verbatim>\<open>min\<close> of the empty
  sequence of its values raises.
\<close>

theorem set_offset_vectors_empty_vector_counterexample:
  "[[]] \<noteq> ([] :: offset_vector list) \<and> set_offset_vectors [] [[]] = Inl ValueError"
  by (simp add: set_offset_vectors_def min_offset_of_def)

text \<open>
  Claim C10. For every list of offset vectors that \<^verbatim>\<open>set_offset_vectors\<close> accepts,
  the maximum offset is at least the minimum offset, the stored \<^verbatim>\<open>max_gap\<close> is not
  negative, and the assertion \<^verbatim>\<open>max_gap >= 0\<close> never fails.
\<close>

theorem max_gap_nonnegative:
  "set_offset_vectors bs vs \<noteq> Inl AssertionError \<and>
   (\<forall>p. set_offset_vectors bs vs = Inr p \<longrightarrow>
      Min (all_offsets vs) \<le> Max (all_offsets vs) \<and> 0 \<le> max_gap p)"
proof (cases "vs \<noteq> [] \<and> (\<forall>v\<in>set vs. v \<noteq> [])")
  case True
  then have "Min (all_offsets vs) \<le> Max (all_offsets vs)"
    by (simp add: offsets_spread_nonneg)
  then show ?thesis
    using True set_offset_vectors_cases[of vs bs] by auto
next
  case False
  then show ?thesis
    using set_offset_vectors_cases[of vs bs] by auto
qed

theorem max_gap_nonnegative_witness:
  "\<exists>p. set_offset_vectors [] [[(''H1'', 0), (''L1'', - 10)], [(''H1'', 0), (''L1'', 0)]] = Inr p
       \<and> max_gap p = 10 \<and> 0 \<le> max_gap p"
proof -
  let ?vs = "[[(''H1'', 0), (''L1'', - 10)], [(''H1'', 0), (''L1'', 0)]] :: offset_vector list"
  have ev: "set_offset_vectors [] ?vs =
      Inr \<lparr>bins = [], offset_vectors = ?vs, max_gap = 10\<rparr>"
    by code_simp
  with max_gap_nonnegative[of "[]" ?vs] show ?thesis by simp
qed

section \<open>Properties of \<^verbatim>\<open>pack\<close>\<close>

lemma extent_le_iff: "extent_le a b \<longleftrightarrow> a \<le> b"
  by (auto simp: extent_le_def less_eq_option_def less_eq_prod_def split: option.splits prod.splits)

lemma pack_bins_sorted_key:
  assumes "pack p c = Inr p'"
  shows "\<exists>bs. bins p' = sort_key extent bs"
  using assms
  by (auto simp: pack_def Let_def split: sum.splits prod.splits if_splits)

lemma sorted_wrt_extent_le: "sorted_wrt (\<lambda>a b. extent_le (extent a) (extent b)) (sort_key extent bs)"
proof -
  have "sorted (map extent (sort_key extent bs))" by (rule sorted_sort_key)
  then show ?thesis
    by (simp add: sorted_map extent_le_iff)
qed

lemma pack_all_last:
  "cs \<noteq> [] \<Longrightarrow> pack_all p cs = Inr p' \<Longrightarrow> \<exists>q c. pack q c = Inr p'"
proof (induction cs arbitrary: p)
  case Nil
  then show ?case by simp
next
  case (Cons c cs)
  show ?case
  proof (cases "pack p c")
    case (Inl e)
    with Cons.prems show ?thesis by simp
  next
    case (Inr q)
    show ?thesis
    proof (cases "cs = []")
      case True
      with Inr Cons.prems show ?thesis by auto
    next
      case False
      from Inr Cons.prems have "pack_all q cs = Inr p'" by simp
      with Cons.IH[OF False] show ?thesis by blast
    qed
  qed
qed

text \<open>
  Claim C6. After every \<^verbatim>\<open>pack\<close> call that returns, and so after every non-empty
  sequence of \<^verbatim>\<open>pack\<close> calls, the bin list is sorted ascending by extent: first by
  the start of the interval, then by its end.
\<close>

theorem pack_restores_order:
  "(pack p c = Inr p' \<longrightarrow> sorted_wrt (\<lambda>a b. extent_le (extent a) (extent b)) (bins p')) \<and>
   (cs \<noteq> [] \<and> pack_all p cs = Inr p'' \<longrightarrow>
      sorted_wrt (\<lambda>a b. extent_le (extent a) (extent b)) (bins p''))"
proof (intro conjI impI)
  assume "pack p c = Inr p'"
  then obtain bs where "bins p' = sort_key extent bs" using pack_bins_sorted_key by blast
  then show "sorted_wrt (\<lambda>a b. extent_le (extent a) (extent b)) (bins p')"
    by (simp add: sorted_wrt_extent_le)
next
  assume "cs \<noteq> [] \<and> pack_all p cs = Inr p''"
  then obtain q c' where "pack q c' = Inr p''" using pack_all_last by blast
  then obtain bs where "bins p'' = sort_key extent bs" using pack_bins_sorted_key by blast
  then show "sorted_wrt (\<lambda>a b. extent_le (extent a) (extent b)) (bins p'')"
    by (simp add: sorted_wrt_extent_le)
qed


theorem pack_restores_order_witness:
  "\<exists>p' p''. pack zero_lag_XY (entry ''e1'' ''X'' 0 10) = Inr p'
     \<and> sorted_wrt (\<lambda>a b. extent_le (extent a) (extent b)) (bins p')
     \<and> [entry ''e3'' ''X'' 1000 1010, entry ''e1'' ''X'' 0 10] \<noteq> []
     \<and> pack_all zero_lag_XY [entry ''e3'' ''X'' 1000 1010, entry ''e1'' ''X'' 0 10] = Inr p''
     \<and> sorted_wrt (\<lambda>a b. extent_le (extent a) (extent b)) (bins p'')
     \<and> map extent (bins p'') = [Some (0, 10), Some (1000, 1010)]"
proof -
  let ?c = "entry ''e1'' ''X'' 0 10"
  let ?cs = "[entry ''e3'' ''X'' 1000 1010, entry ''e1'' ''X'' 0 10]"
  have "\<not> isl (pack zero_lag_XY ?c)" by code_simp
  then obtain p' where p': "pack zero_lag_XY ?c = Inr p'"
    by (cases "pack zero_lag_XY ?c") auto
  have "\<not> isl (pack_all zero_lag_XY ?cs)" by code_simp
  then obtain p'' where p'': "pack_all zero_lag_XY ?cs = Inr p''"
    by (cases "pack_all zero_lag_XY ?cs") auto
  have "map extent (bins (projr (pack_all zero_lag_XY ?cs))) = [Some (0, 10), Some (1000, 1010)]"
    by code_simp
  with p'' have ext: "map extent (bins p'') = [Some (0, 10), Some (1000, 1010)]" by simp
  note inst = pack_restores_order[of zero_lag_XY ?c p' ?cs p'']
  have s1: "sorted_wrt (\<lambda>a b. extent_le (extent a) (extent b)) (bins p')"
    using inst p' by simp
  have s2: "sorted_wrt (\<lambda>a b. extent_le (extent a) (extent b)) (bins p'')"
    using inst p'' by simp
  show ?thesis
    using p' p'' s1 s2 ext by (intro exI[of _ p'] exI[of _ p''] conjI) simp_all
qed

lemma members_append: "members (xs @ ys) = members xs @ members ys"
  by (simp add: members_def)

lemma members_Cons: "members (b # bs) = objects b @ members bs"
  by (simp add: members_def)

lemma members_Nil: "members [] = []"
  by (simp add: members_def)

lemma mset_members_pop:
  assumes "n < length bs"
  shows "mset (members bs) = mset (members (pop bs n)) + mset (objects (bs ! n))"
proof -
  have "bs = take n bs @ bs ! n # drop (Suc n) bs" using assms by (rule id_take_nth_drop)
  then have "members bs = members (take n bs) @ objects (bs ! n) @ members (drop (Suc n) bs)"
    by (metis members_append members_Cons)
  then show ?thesis by (simp add: pop_def members_append)
qed

lemma mset_members_update:
  assumes "d < length bs"
  shows "mset (members (bs[d := b])) + mset (objects (bs ! d)) = mset (members bs) + mset (objects b)"
proof -
  have a: "bs = take d bs @ bs ! d # drop (Suc d) bs" using assms by (rule id_take_nth_drop)
  have b: "bs[d := b] = take d bs @ b # drop (Suc d) bs" using assms by (rule upd_conv_take_nth_drop)
  have "members bs = members (take d bs) @ objects (bs ! d) @ members (drop (Suc d) bs)"
    using a by (metis members_append members_Cons)
  moreover have "members (bs[d := b]) = members (take d bs) @ objects b @ members (drop (Suc d) bs)"
    using b by (simp add: members_append members_Cons)
  ultimately show ?thesis by simp
qed

lemma mset_members_perm:
  assumes "mset xs = mset ys"
  shows "mset (members xs) = mset (members ys)"
proof -
  have "\<And>zs. mset (members zs) = sum_mset (image_mset (\<lambda>b. mset (objects b)) (mset zs))"
  proof -
    fix zs show "mset (members zs) = sum_mset (image_mset (\<lambda>b. mset (objects b)) (mset zs))"
      by (induction zs) (simp_all add: members_Nil members_Cons)
  qed
  with assms show ?thesis by simp
qed

lemma bin_iadd_objects:
  "bin_iadd b other = Inr dest \<Longrightarrow> objects dest = objects b @ objects other"
  by (auto simp: bin_iadd_def Let_def split: sum.splits)

lemma bin_add_objects:
  "bin_add b c sz = Inr dest \<Longrightarrow> objects dest = objects b @ [c]"
  by (auto simp: bin_add_def Let_def split: sum.splits)

lemma length_pop: "n < length xs \<Longrightarrow> length (pop xs n) = length xs - 1"
  by (simp add: pop_def)

lemma nth_pop_before: "d < n \<Longrightarrow> n < length xs \<Longrightarrow> pop xs n ! d = xs ! d"
  by (simp add: pop_def nth_append)


lemma scan_bins_inv:
  assumes "scan_bins gap ovs n bs new m = Inr (bs', new', m')"
  shows "map objects bs' = map objects bs \<and> objects new' = objects new \<and> extent new' = extent new \<and>
         (\<exists>ms. m' = m @ ms \<and> sorted_wrt (>) ms \<and> (\<forall>x\<in>set ms. x < n))"
  using assms
proof (induction n arbitrary: bs new m)
  case 0
  then show ?case by simp
next
  case (Suc n)
  from Suc.prems obtain be ne where ext: "extent (bs ! n) = Some be" "extent new = Some ne"
    by (auto split: option.splits)
  show ?case
  proof (cases "snd be < fst ne - gap")
    case True
    with Suc.prems ext show ?thesis by simp
  next
    case False
    obtain hit nsz bsz where tv: "try_vectors ovs (bin_size new) (bin_size (bs ! n)) = (hit, nsz, bsz)"
      by (cases "try_vectors ovs (bin_size new) (bin_size (bs ! n))") auto
    let ?bs1 = "bs[n := (bs ! n)\<lparr>bin_size := offsets_clear bsz\<rparr>]"
    let ?new1 = "new\<lparr>bin_size := nsz\<rparr>"
    let ?m1 = "if hit then m @ [n] else m"
    from Suc.prems ext False tv
    have rec: "scan_bins gap ovs n ?bs1 ?new1 ?m1 = Inr (bs', new', m')" by simp
    from Suc.IH[OF rec] obtain ms where
      o: "map objects bs' = map objects ?bs1" and on: "objects new' = objects ?new1"
      and en: "extent new' = extent ?new1"
      and ms: "m' = ?m1 @ ms" "sorted_wrt (>) ms" "\<forall>x\<in>set ms. x < n"
      by blast
    have "map objects ?bs1 = (map objects bs)[n := objects (bs ! n)]"
      by (simp add: map_update)
    also have "\<dots> = map objects bs"
    proof (cases "n < length bs")
      case True
      then have "objects (bs ! n) = map objects bs ! n" by simp
      then show ?thesis by (simp only: list_update_id)
    next
      case False
      then have "length (map objects bs) \<le> n" by simp
      then show ?thesis by (rule list_update_beyond)
    qed
    finally have o1: "map objects ?bs1 = map objects bs" .
    let ?ms' = "if hit then n # ms else ms"
    have "m' = m @ ?ms'" using ms(1) by simp
    moreover have "sorted_wrt (>) ?ms'" using ms(2,3) by auto
    moreover have "\<forall>x\<in>set ?ms'. x < Suc n" using ms(3) by auto
    ultimately have "\<exists>ms. m' = m @ ms \<and> sorted_wrt (>) ms \<and> (\<forall>x\<in>set ms. x < Suc n)"
      by blast
    with o o1 on en show ?thesis by simp
  qed
qed

lemma scan_bins_length:
  assumes "scan_bins gap ovs n bs new m = Inr (bs', new', m')"
  shows "length bs' = length bs"
proof -
  from scan_bins_inv[OF assms] have "map objects bs' = map objects bs" by blast
  then show ?thesis by (rule map_eq_imp_length_eq)
qed

lemma merge_matching_inv:
  assumes "merge_matching d ns bs = Inr bs'" "sorted_wrt (>) ns" "\<forall>n\<in>set ns. d < n \<and> n < length bs"
  shows "mset (members bs') = mset (members bs) \<and> length bs' + length ns = length bs"
  using assms
proof (induction ns arbitrary: bs)
  case Nil
  then show ?case by simp
next
  case (Cons n ns)
  from Cons.prems(3) have dn: "d < n" and nl: "n < length bs" by auto
  let ?bs1 = "pop bs n"
  from Cons.prems(1) dn obtain dest where
    dest: "bin_iadd (?bs1 ! d) (bs ! n) = Inr dest"
    and rec: "merge_matching d ns (?bs1[d := dest]) = Inr bs'"
    by (auto simp: Let_def split: sum.splits)
  have len1: "length ?bs1 = length bs - 1" using nl by (rule length_pop)
  have dl1: "d < length ?bs1" using dn nl len1 by simp
  have srt: "sorted_wrt (>) ns" using Cons.prems(2) by simp
  have bnd: "\<forall>k\<in>set ns. d < k \<and> k < length (?bs1[d := dest])"
  proof
    fix k assume k: "k \<in> set ns"
    with Cons.prems(2) have "k < n" by auto
    moreover from k Cons.prems(3) have "d < k" by auto
    ultimately show "d < k \<and> k < length (?bs1[d := dest])" using nl len1 by simp
  qed
  from Cons.IH[OF rec srt bnd]
  have ih: "mset (members bs') = mset (members (?bs1[d := dest]))"
    and ihl: "length bs' + length ns = length (?bs1[d := dest])" by simp_all
  have "mset (members (?bs1[d := dest])) + mset (objects (?bs1 ! d))
          = mset (members ?bs1) + mset (objects dest)"
    using dl1 by (rule mset_members_update)
  also have "\<dots> = mset (members ?bs1) + mset (objects (?bs1 ! d)) + mset (objects (bs ! n))"
    using bin_iadd_objects[OF dest] by simp
  also have "\<dots> = mset (members bs) + mset (objects (?bs1 ! d))"
    using mset_members_pop[OF nl] by simp
  finally have "mset (members (?bs1[d := dest])) = mset (members bs)" by simp
  with ih ihl len1 nl show ?case by simp
qed


lemma members_cong: "map objects xs = map objects ys \<Longrightarrow> members xs = members ys"
  by (simp add: members_def)

lemma pack_step:
  assumes "pack p c = Inr p'"
  shows "mset (members (bins p')) = add_mset c (mset (members (bins p)))"
    and "length (bins p') + length (matching_bins p c) = length (bins p) + 1"
proof -
  from assms obtain new0 where new0: "bin_add LALCacheBin c (to_segmentlistdict c) = Inr new0"
    by (auto simp: pack_def split: sum.splits)
  from assms new0 obtain bs new1 mb where
    sc: "scan_bins (max_gap p) (offset_vectors p) (length (bins p)) (bins p) new0 [] = Inr (bs, new1, mb)"
    by (auto simp: pack_def split: sum.splits)
  let ?new = "new1\<lparr>bin_size := offsets_clear (bin_size new1)\<rparr>"
  have mb_def: "matching_bins p c = mb" using new0 sc by (simp add: matching_bins_def)
  from scan_bins_inv[OF sc] have
    o: "map objects bs = map objects (bins p)" and on: "objects new1 = objects new0"
    and srt: "sorted_wrt (>) mb" and bnd: "\<forall>x\<in>set mb. x < length (bins p)"
    by auto
  have len: "length bs = length (bins p)" using scan_bins_length[OF sc] .
  have onew: "objects ?new = [c]"
    using on bin_add_objects[OF new0] by (simp add: LALCacheBin_def)
  have mem: "members bs = members (bins p)" using o by (rule members_cong)
  have "\<exists>bs'. bins p' = sort_key extent bs' \<and>
          mset (members bs') = add_mset c (mset (members (bins p))) \<and>
          length bs' + length mb = length (bins p) + 1"
  proof (cases "mb = []")
    case True
    with assms new0 sc have "bins p' = sort_key extent (bs @ [?new])"
      by (auto simp: pack_def Let_def)
    moreover have "mset (members (bs @ [?new])) = add_mset c (mset (members (bins p)))"
      using onew mem by (simp add: members_append members_Cons members_Nil)
    ultimately show ?thesis using True len by auto
  next
    case False
    let ?d = "last mb"
    from assms new0 sc False obtain dest bs' where
      dest: "bin_iadd (bs ! ?d) ?new = Inr dest"
      and mm: "merge_matching ?d (butlast mb) (bs[?d := dest]) = Inr bs'"
      and res: "bins p' = sort_key extent bs'"
      by (auto simp: pack_def Let_def split: sum.splits)
    have mbsplit: "mb = butlast mb @ [?d]" using False by simp
    have dl: "?d < length bs" using False bnd len by simp
    have srt2: "sorted_wrt (>) (butlast mb @ [?d])" using srt mbsplit by simp
    then have srtb: "sorted_wrt (>) (butlast mb)" and gt: "\<forall>x\<in>set (butlast mb). ?d < x"
      by (auto simp: sorted_wrt_append)
    have bnd2: "\<forall>n\<in>set (butlast mb). ?d < n \<and> n < length (bs[?d := dest])"
    proof
      fix n assume n: "n \<in> set (butlast mb)"
      then have "n \<in> set mb" by (rule in_set_butlastD)
      with bnd len have "n < length bs" by simp
      with gt n show "?d < n \<and> n < length (bs[?d := dest])" by simp
    qed
    from merge_matching_inv[OF mm srtb bnd2]
    have m1: "mset (members bs') = mset (members (bs[?d := dest]))"
      and l1: "length bs' + length (butlast mb) = length (bs[?d := dest])" by simp_all
    have "mset (members (bs[?d := dest])) + mset (objects (bs ! ?d))
            = mset (members bs) + mset (objects dest)"
      using dl by (rule mset_members_update)
    also have "\<dots> = add_mset c (mset (members bs)) + mset (objects (bs ! ?d))"
      using bin_iadd_objects[OF dest] onew by simp
    finally have "mset (members (bs[?d := dest])) = add_mset c (mset (members bs))" by simp
    with m1 mem have "mset (members bs') = add_mset c (mset (members (bins p)))" by simp
    moreover have "length bs' + length mb = length (bins p) + 1"
    proof -
      have a: "1 \<le> length mb" using False by (cases mb) simp_all
      have b: "length bs' + (length mb - 1) = length (bins p)" using l1 len by simp
      from a b show ?thesis by arith
    qed
    ultimately show ?thesis using res by blast
  qed
  then obtain bs' where res: "bins p' = sort_key extent bs'"
    and m: "mset (members bs') = add_mset c (mset (members (bins p)))"
    and l: "length bs' + length mb = length (bins p) + 1" by blast
  have "mset (members (bins p')) = mset (members bs')"
    using res by (intro mset_members_perm) simp
  with m show "mset (members (bins p')) = add_mset c (mset (members (bins p)))" by simp
  show "length (bins p') + length (matching_bins p c) = length (bins p) + 1"
    using res l mb_def by simp
qed

lemma pack_all_partition:
  "pack_all p cs = Inr p' \<Longrightarrow> mset (members (bins p')) = mset (members (bins p)) + mset cs"
proof (induction cs arbitrary: p)
  case Nil
  then show ?case by simp
next
  case (Cons c cs)
  then obtain q where q: "pack p c = Inr q" and r: "pack_all q cs = Inr p'"
    by (auto split: sum.splits)
  from Cons.IH[OF r] pack_step(1)[OF q] show ?case by simp
qed


lemma set_offset_vectors_bins: "set_offset_vectors bs vs = Inr p \<Longrightarrow> bins p = bs"
  using set_offset_vectors_cases[of vs bs] by auto

text \<open>
  Claim C3. After any sequence of \<^verbatim>\<open>pack\<close> calls the multiset union of the members
  of all bins is the multiset of the members before plus the entries packed, so that from
  a packer without bins it is exactly the multiset of the entries packed so far; one
  \<^verbatim>\<open>pack\<close> call adds its entry once and leaves one bin for the entry and all the
  bins found to match it: one bin more on no match, as many bins on one match, and one bin
  less for each further match.
\<close>

theorem pack_partition:
  "(pack_all p cs = Inr p' \<longrightarrow> mset (members (bins p')) = mset (members (bins p)) + mset cs) \<and>
   (set_offset_vectors [] vs = Inr p0 \<and> pack_all p0 cs = Inr p1 \<longrightarrow>
      mset (members (bins p1)) = mset cs) \<and>
   (pack p c = Inr p'' \<longrightarrow>
      mset (members (bins p'')) = add_mset c (mset (members (bins p))) \<and>
      length (bins p'') + length (matching_bins p c) = length (bins p) + 1)"
proof (intro conjI impI)
  assume "pack_all p cs = Inr p'"
  then show "mset (members (bins p')) = mset (members (bins p)) + mset cs"
    by (rule pack_all_partition)
next
  assume a: "set_offset_vectors [] vs = Inr p0 \<and> pack_all p0 cs = Inr p1"
  then have "bins p0 = []" using set_offset_vectors_bins by blast
  with a pack_all_partition[of p0 cs p1] show "mset (members (bins p1)) = mset cs"
    by (simp add: members_Nil)
next
  assume "pack p c = Inr p''"
  then show "mset (members (bins p'')) = add_mset c (mset (members (bins p)))"
    by (rule pack_step(1))
next
  assume "pack p c = Inr p''"
  then show "length (bins p'') + length (matching_bins p c) = length (bins p) + 1"
    by (rule pack_step(2))
qed

theorem pack_partition_witness:
  "\<exists>p0 p1 p2.
     set_offset_vectors [] [[(''X'', 0), (''Y'', 0)]] = Inr p0
     \<and> pack_all p0 [entry ''e1'' ''X'' 0 10, entry ''e2'' ''X'' 20 30] = Inr p1
     \<and> mset (members (bins p1)) = {#entry ''e1'' ''X'' 0 10, entry ''e2'' ''X'' 20 30#}
     \<and> length (bins p1) = 2
     \<and> pack p1 (entry ''e3'' ''Y'' 5 25) = Inr p2
     \<and> matching_bins p1 (entry ''e3'' ''Y'' 5 25) = [1, 0]
     \<and> length (bins p2) = 1
     \<and> mset (members (bins p2)) =
         {#entry ''e1'' ''X'' 0 10, entry ''e2'' ''X'' 20 30, entry ''e3'' ''Y'' 5 25#}"
proof -
  let ?vs = "[[(''X'', 0), (''Y'', 0)]] :: offset_vector list"
  let ?cs = "[entry ''e1'' ''X'' 0 10, entry ''e2'' ''X'' 20 30]"
  let ?c = "entry ''e3'' ''Y'' 5 25"
  have p0: "set_offset_vectors [] ?vs = Inr zero_lag_XY"
    unfolding zero_lag_XY_def by code_simp
  have "\<not> isl (pack_all zero_lag_XY ?cs)" by code_simp
  then obtain p1 where p1: "pack_all zero_lag_XY ?cs = Inr p1"
    by (cases "pack_all zero_lag_XY ?cs") auto
  have "\<not> isl (pack (projr (pack_all zero_lag_XY ?cs)) ?c)" by code_simp
  with p1 have "\<not> isl (pack p1 ?c)" by simp
  then obtain p2 where p2: "pack p1 ?c = Inr p2"
    by (cases "pack p1 ?c") auto
  have "matching_bins (projr (pack_all zero_lag_XY ?cs)) ?c = [1, 0]" by code_simp
  with p1 have mb: "matching_bins p1 ?c = [1, 0]" by simp
  have "length (bins (projr (pack_all zero_lag_XY ?cs))) = 2" by code_simp
  with p1 have l1: "length (bins p1) = 2" by simp
  note inst1 = pack_partition[where p = p1 and c = ?c and p'' = p2 and cs = ?cs
      and vs = ?vs and ?p0.0 = zero_lag_XY and ?p1.0 = p1 and p' = p2]
  have m1: "mset (members (bins p1)) = mset ?cs"
    using inst1[THEN conjunct2, THEN conjunct1] p0 p1 by blast
  have m2: "mset (members (bins p2)) = add_mset ?c (mset (members (bins p1)))"
    and l2: "length (bins p2) + length (matching_bins p1 ?c) = length (bins p1) + 1"
    using inst1[THEN conjunct2, THEN conjunct2] p2 by blast+
  have l2': "length (bins p2) = 1" using l2 mb l1 by simp
  show ?thesis
    using p0 p1 p2 mb l1 l2' m1 m2
    by (intro exI[of _ zero_lag_XY] exI[of _ p1] exI[of _ p2] conjI) simp_all
qed

section \<open>The order of the offset vectors\<close>

lemma ligolw_cafe_pack_stage:
  "ligolw_cafe ar cache vs extentlimit =
     (case pack_stage ar (filter_cache (coincident_coverage cache vs) cache) vs extentlimit of
        Inl e \<Rightarrow> Inl e
      | Inr bs \<Rightarrow> Inr (coincident_coverage cache vs, bs))"
  by (simp add: ligolw_cafe_def pack_stage_def Let_def split: sum.splits)

lemma all_offsets_cong: "set vs = set vs' \<Longrightarrow> all_offsets vs = all_offsets vs'"
  by (simp add: all_offsets_def)

lemma sort_key_perm_inj:
  assumes "mset xs = mset ys" "inj_on f (set xs)"
  shows "sort_key f xs = sort_key f ys"
proof (rule sort_key_inj_key_eq)
  show "mset xs = mset (sort_key f ys)" using assms(1) by simp
  show "inj_on f (set xs)" by (rule assms(2))
  show "sorted (map f (sort_key f ys))" by (rule sorted_sort_key)
qed

lemma set_offset_vectors_perm:
  assumes "mset vs = mset vs'" "inj_on sort (set vs)"
  shows "set_offset_vectors bs vs = set_offset_vectors bs vs'"
proof -
  have st: "set vs = set vs'" using assms(1) by (rule mset_eq_setD)
  have em: "vs = [] \<longleftrightarrow> vs' = []" using assms(1) by (metis mset_zero_iff)
  have ao: "all_offsets vs = all_offsets vs'" using st by (rule all_offsets_cong)
  have sk: "sort_key (\<lambda>v. sort v) vs = sort_key (\<lambda>v. sort v) vs'"
    using assms by (rule sort_key_perm_inj)
  show ?thesis
  proof (cases "vs = [] \<or> (\<exists>v\<in>set vs. v = [])")
    case True
    then have "vs' = [] \<or> (\<exists>v\<in>set vs'. v = [])" using st em by simp
    with True show ?thesis
      using set_offset_vectors_cases[of vs bs] set_offset_vectors_cases[of vs' bs] by auto
  next
    case False
    then have "\<not> (vs' = [] \<or> (\<exists>v\<in>set vs'. v = []))" using st em by simp
    with False show ?thesis
      using set_offset_vectors_cases[of vs bs] set_offset_vectors_cases[of vs' bs] ao sk by auto
  qed
qed

text \<open>
  Claim C9. For a fixed list of entries, time-sorted by the driver, and two lists of offset
  vectors that differ only in their order, \<^verbatim>\<open>set_offset_vectors\<close> stores the same
  sorted vectors and the same \<^verbatim>\<open>max_gap\<close>, and the packing stage returns the same
  bins. Offset vectors that are equal as dictionaries are taken to be written with the
  same list of items, so that the sort key tells different vectors apart.
\<close>

theorem vector_order_irrelevant:
  assumes "mset vs = mset vs'" and "inj_on sort (set vs)"
  shows "set_offset_vectors bs vs = set_offset_vectors bs vs' \<and>
         pack_stage ar cache vs extentlimit = pack_stage ar cache vs' extentlimit"
proof -
  have "\<And>b. set_offset_vectors b vs = set_offset_vectors b vs'"
    using assms by (rule set_offset_vectors_perm)
  then show ?thesis by (simp add: pack_stage_def)
qed


theorem vector_order_irrelevant_witness:
  "mset [[(''X'', 0), (''Y'', - 1000)], [(''X'', 0), (''Y'', 0)]]
     = mset [[(''X'', 0), (''Y'', 0)], [(''X'', 0), (''Y'', - 1000 :: time)]]
   \<and> inj_on sort (set [[(''X'', 0), (''Y'', - 1000)], [(''X'', 0), (''Y'', 0 :: time)]])
   \<and> set_offset_vectors [] [[(''X'', 0), (''Y'', - 1000)], [(''X'', 0), (''Y'', 0)]]
       = set_offset_vectors [] [[(''X'', 0), (''Y'', 0)], [(''X'', 0), (''Y'', - 1000)]]
   \<and> pack_stage exact_arith [entry ''e2'' ''Y'' 1005 1015, entry ''e1'' ''X'' 0 10]
         [[(''X'', 0), (''Y'', - 1000)], [(''X'', 0), (''Y'', 0)]] None
       = pack_stage exact_arith [entry ''e2'' ''Y'' 1005 1015, entry ''e1'' ''X'' 0 10]
         [[(''X'', 0), (''Y'', 0)], [(''X'', 0), (''Y'', - 1000)]] None"
proof -
  let ?a = "[(''X'', 0), (''Y'', - 1000)] :: offset_vector"
  let ?b = "[(''X'', 0), (''Y'', 0)] :: offset_vector"
  have h1: "mset [?a, ?b] = mset [?b, ?a]" by simp
  have sa: "sort ?a = ?a" by code_simp
  have sb: "sort ?b = ?b" by code_simp
  have h2: "inj_on sort (set [?a, ?b])" using sa sb by (simp add: inj_on_def)
  from vector_order_irrelevant[OF h1 h2] h1 h2 show ?thesis by blast
qed

section \<open>Properties of \<^verbatim>\<open>split_bins\<close>\<close>

lemma collect_list_all2:
  "collect f xs = Inr ys \<Longrightarrow> list_all2 (\<lambda>x y. f x = Inr y) xs ys"
proof (induction xs arbitrary: ys)
  case Nil
  then show ?case by simp
next
  case (Cons x xs)
  from Cons.prems obtain y zs where y: "f x = Inr y" and zs: "collect f xs = Inr zs" and ys: "ys = y # zs"
    by (auto split: sum.splits)
  from Cons.IH[OF zs] y ys show ?case by simp
qed

lemma fill_bin_subseq: "fill_bin gap ovs x cs = Inr r \<Longrightarrow> subseq r cs"
proof (induction cs arbitrary: r)
  case Nil
  then show ?case by simp
next
  case (Cons c cs)
  from Cons.prems obtain s rest where s: "segment c = Some s" and rest: "fill_bin gap ovs x cs = Inr rest"
    by (auto split: option.splits sum.splits)
  from Cons.IH[OF rest] have ih: "subseq rest cs" .
  from Cons.prems s rest have "r = c # rest \<or> r = rest" by (auto split: if_splits)
  with ih show ?case by auto
qed


lemma new_bin_objects: "new_bin b w = Inr nb \<Longrightarrow> objects nb = [] \<and> extent nb \<noteq> None"
  by (auto simp: new_bin_def Let_def split: sum.splits)

lemma fill_new_bin_fill:
  assumes "fill_new_bin gap ovs ms nb = Inr r" "objects nb = []"
  shows "\<exists>x. extent nb = Some x \<and> extent r = Some x \<and> bin_size r = bin_size nb \<and>
             fill_bin gap ovs x ms = Inr (objects r)"
proof -
  from assms(1) obtain x cs where x: "extent nb = Some x" and cs: "fill_bin gap ovs x ms = Inr cs"
    and r: "r = nb\<lparr>objects := objects nb @ cs\<rparr>"
    by (auto simp: fill_new_bin_def split: option.splits sum.splits)
  from x cs r assms(2) show ?thesis by simp
qed

lemma split_bin_pieces:
  assumes "split_bin ar gap ovs b ext n = Inr g"
  shows "length g = length (split_windows ar ext n)"
    and "\<forall>i<length g. \<exists>x. extent_all (sld_clip (bin_size b) (split_windows ar ext n ! i)) = Inr x \<and>
            extent (g ! i) = Some x \<and> fill_bin gap ovs x (objects b) = Inr (objects (g ! i))"
proof -
  from assms obtain newbins where
    c1: "collect (new_bin b) (split_windows ar ext n) = Inr newbins" and
    c2: "collect (fill_new_bin gap ovs (objects b)) newbins = Inr g"
    by (auto simp: split_bin_def split: sum.splits)
  note a1 = collect_list_all2[OF c1]
  note a2 = collect_list_all2[OF c2]
  have l2: "length newbins = length g" using list_all2_lengthD[OF a2] .
  have l1: "length (split_windows ar ext n) = length newbins" using list_all2_lengthD[OF a1] .
  show "length g = length (split_windows ar ext n)" using l1 l2 by simp
  show "\<forall>i<length g. \<exists>x. extent_all (sld_clip (bin_size b) (split_windows ar ext n ! i)) = Inr x \<and>
            extent (g ! i) = Some x \<and> fill_bin gap ovs x (objects b) = Inr (objects (g ! i))"
  proof (intro allI impI)
    fix i assume i: "i < length g"
    have nb: "new_bin b (split_windows ar ext n ! i) = Inr (newbins ! i)"
      using list_all2_nthD[OF a1] i l1 l2 by simp
    then have o: "objects (newbins ! i) = []" using new_bin_objects by blast
    from nb obtain x0 where x0: "extent_all (sld_clip (bin_size b) (split_windows ar ext n ! i)) = Inr x0"
      and nbx: "newbins ! i = \<lparr>objects = [], bin_size = sld_clip (bin_size b) (split_windows ar ext n ! i),
                  extent = Some x0\<rparr>"
      by (auto simp: new_bin_def Let_def split: sum.splits)
    have e0: "extent (newbins ! i) = Some x0" by (simp add: nbx)
    have "fill_new_bin gap ovs (objects b) (newbins ! i) = Inr (g ! i)"
      using list_all2_nthD[OF a2] i l2 by simp
    from fill_new_bin_fill[OF this o] e0 x0
    show "\<exists>x. extent_all (sld_clip (bin_size b) (split_windows ar ext n ! i)) = Inr x \<and>
            extent (g ! i) = Some x \<and> fill_bin gap ovs x (objects b) = Inr (objects (g ! i))"
      by auto
  qed
qed

lemma split_bin_subseq:
  assumes "split_bin ar gap ovs b ext n = Inr g" "nb \<in> set g"
  shows "subseq (objects nb) (objects b)"
proof -
  from assms(2) obtain i where i: "i < length g" "nb = g ! i" by (auto simp: in_set_conv_nth)
  from split_bin_pieces(2)[OF assms(1)] i obtain x where
    "fill_bin gap ovs x (objects b) = Inr (objects nb)" by blast
  then show ?thesis by (rule fill_bin_subseq)
qed

lemma split_bin_members_subset:
  assumes "split_bin ar gap ovs b ext n = Inr g"
  shows "set (members g) \<subseteq> set (objects b)"
proof
  fix c assume "c \<in> set (members g)"
  then obtain nb where nb: "nb \<in> set g" "c \<in> set (objects nb)" by (auto simp: members_def)
  from split_bin_subseq[OF assms nb(1)] have "subseq (objects nb) (objects b)" .
  from list_emb_set[OF this nb(2)] show "c \<in> set (objects b)" by auto
qed

lemma split_loop_members_subset:
  "split_loop ar gap ovs L bs = Inr bs' \<Longrightarrow> set (members bs') \<subseteq> set (members bs)"
proof (induction bs arbitrary: bs')
  case Nil
  then show ?case by simp
next
  case (Cons b bs)
  from Cons.prems obtain e where e: "extent b = Some e" and L: "L \<noteq> 0"
    by (auto split: option.splits if_splits)
  show ?case
  proof (cases "split_count ar e L \<le> 1")
    case True
    with Cons.prems e L obtain rest where r: "split_loop ar gap ovs L bs = Inr rest" and b': "bs' = b # rest"
      by (auto simp: Let_def split: sum.splits)
    from Cons.IH[OF r] b' show ?thesis by (auto simp: members_Cons)
  next
    case False
    with Cons.prems e L obtain g rest where g: "split_bin ar gap ovs b e (split_count ar e L) = Inr g"
      and r: "split_loop ar gap ovs L bs = Inr rest" and b': "bs' = g @ rest"
      by (auto simp: Let_def split: sum.splits)
    from Cons.IH[OF r] split_bin_members_subset[OF g] b' show ?thesis
      by (auto simp: members_Cons members_append)
  qed
qed








































lemma extent_all_error: "extent_all d = Inl e \<Longrightarrow> e = ValueError"
  by (auto simp: extent_all_def split: list.splits)

lemma new_bin_error: "new_bin b w = Inl e \<Longrightarrow> e = ValueError"
  by (auto simp: new_bin_def Let_def split: sum.splits dest: extent_all_error)

lemma length_split_times: "length (split_times ar ext n) = nat (n - 1)"
  by (simp add: split_times_def)

lemma hole_window:
  assumes "10 \<le> t0" "t0 \<le> 1005" "10 \<le> t1" "t1 \<le> 1005"
  shows "new_bin scenario_b_bin (window_mk (Some t0, Some t1)) = Inl ValueError"
proof -
  obtain l h where w: "window_mk (Some t0, Some t1) = (Some l, Some h)" and l: "10 \<le> l" and h: "h \<le> 1005"
    using assms by (cases "t0 \<le> t1") (auto simp: window_mk_def)
  have "sld_clip (bin_size scenario_b_bin) (Some l, Some h) = []"
    using l h by (simp add: sld_clip_def scenario_b_bin_def sl_clip_def above_lo_def below_hi_def)
  then show ?thesis by (simp add: new_bin_def w extent_all_def extents_of_def sld_values_def)
qed

lemma split_bin_hole:
  assumes n: "3 \<le> n"
    and ts: "list_all (\<lambda>t. 10 \<le> t \<and> t \<le> 1005) (take 2 (split_times ar (0, 1015) n))"
  shows "split_bin ar gap ovs scenario_b_bin (0, 1015) n = Inl ValueError"
proof -
  let ?ts = "split_times ar (0, 1015) n"
  have len: "2 \<le> length ?ts" using n by (simp add: length_split_times)
  then have t0: "10 \<le> ?ts ! 0 \<and> ?ts ! 0 \<le> 1005" and t1: "10 \<le> ?ts ! 1 \<and> ?ts ! 1 \<le> 1005"
    using ts by (simp_all add: list_all_length)
  let ?ws = "split_windows ar (0, 1015) n"
  obtain a b rest where tsd: "?ts = a # b # rest"
  proof (cases ?ts)
    case Nil
    with len show ?thesis by simp
  next
    case (Cons a r)
    with len obtain b rest where "r = b # rest" by (cases r) auto
    with Cons that show ?thesis by simp
  qed
  have l1: "1 < length (zip (None # map Some ?ts) (map Some ?ts @ [None]))" unfolding tsd by simp
  have "?ws ! 1 = window_mk (zip (None # map Some ?ts) (map Some ?ts @ [None]) ! 1)"
    unfolding split_windows_def using l1 by (rule nth_map)
  also have "zip (None # map Some ?ts) (map Some ?ts @ [None]) ! 1 = (Some (?ts ! 0), Some (?ts ! 1))"
    unfolding tsd by simp
  finally have w1: "?ws ! 1 = window_mk (Some (?ts ! 0), Some (?ts ! 1))" .
  have "1 < length ?ws" using l1 by (simp add: split_windows_def)
  then have mem: "?ws ! 1 \<in> set ?ws" by (rule nth_mem)
  have err: "new_bin scenario_b_bin (?ws ! 1) = Inl ValueError"
    unfolding w1 using t0 t1 by (intro hole_window) simp_all
  have "collect (new_bin scenario_b_bin) ?ws = Inl ValueError"
  proof (rule collect_Inl[where f = "new_bin scenario_b_bin" and x = "?ws ! 1", OF mem err])
    fix y e' assume "y \<in> set ?ws" "new_bin scenario_b_bin y = Inl e'"
    then show "e' = ValueError" using new_bin_error by blast
  qed
  then show ?thesis by (simp add: split_bin_def)
qed

text \<open>
  Claim C4 does not hold of the code. In scenario B of the spec the two entries
  \<open>X[0, 10)\<close> and \<open>Y[1005, 1015)\<close> are packed into one bin of extent \<open>[0, 1015)\<close>, whose
  size has no segment between \<open>10\<close> and \<open>1005\<close>. With the limit \<open>100\<close> the bin is to be
  cut in \<open>ceil (1015 / 100) = 11\<close> pieces. Whatever the rounding of the float arithmetic,
  as long as it gives at least three pieces and puts the first two split times between
  \<open>10\<close> and \<open>1005\<close> (they are near \<open>92.3\<close> and \<open>184.5\<close>), the second candidate interval
  holds no segment of the bin, \<^verbatim>\<open>extent_all()\<close> raises \<^verbatim>\<open>ValueError\<close> for it, and
  \<^verbatim>\<open>split_bins\<close> and \<^verbatim>\<open>ligolw_cafe\<close> raise instead of replacing the bin by bins of
  duration at most \<open>100\<close>.
\<close>

theorem split_raises_on_coverage_hole:
  assumes "3 \<le> split_count ar (0, 1015) 100"
    and "list_all (\<lambda>t. 10 \<le> t \<and> t \<le> 1005)
           (take 2 (split_times ar (0, 1015) (split_count ar (0, 1015) 100)))"
  shows "set_offset_vectors [] scenario_b_vectors = Inr (scenario_b_packer\<lparr>bins := []\<rparr>) \<and>
         pack_all (scenario_b_packer\<lparr>bins := []\<rparr>) scenario_b_cache = Inr scenario_b_packer \<and>
         split_bins ar scenario_b_packer 100 = Inl ValueError \<and>
         ligolw_cafe ar scenario_b_cache scenario_b_vectors (Some 100) = Inl ValueError"
proof -
  have p0: "set_offset_vectors [] scenario_b_vectors = Inr (scenario_b_packer\<lparr>bins := []\<rparr>)"
    by code_simp
  have p1: "pack_all (scenario_b_packer\<lparr>bins := []\<rparr>) scenario_b_cache = Inr scenario_b_packer"
    by code_simp
  have flt: "sort_key segment
               (filter_cache (coincident_coverage scenario_b_cache scenario_b_vectors) scenario_b_cache)
             = scenario_b_cache"
    by code_simp
  have n1: "\<not> split_count ar (0, 1015) 100 \<le> 1" using assms(1) by simp
  have sb: "split_bin ar 1000 (offset_vectors scenario_b_packer) scenario_b_bin (0, 1015)
              (split_count ar (0, 1015) 100) = Inl ValueError"
    using assms by (rule split_bin_hole)
  have e: "extent scenario_b_bin = Some (0, 1015)" by (simp add: scenario_b_bin_def)
  have sl: "split_loop ar 1000 (offset_vectors scenario_b_packer) 100 [scenario_b_bin] = Inl ValueError"
    using e n1 sb by (simp add: Let_def)
  have s: "split_bins ar scenario_b_packer 100 = Inl ValueError"
    using sl by (simp add: split_bins_def scenario_b_packer_def)
  have "ligolw_cafe ar scenario_b_cache scenario_b_vectors (Some 100) = Inl ValueError"
    using p0 p1 flt s by (simp add: ligolw_cafe_def Let_def)
  with p0 p1 s show ?thesis by simp
qed

theorem split_raises_on_coverage_hole_witness:
  "3 \<le> split_count exact_arith (0, 1015) 100
   \<and> split_count exact_arith (0, 1015) 100 = 11
   \<and> list_all (\<lambda>t. 10 \<le> t \<and> t \<le> 1005)
        (take 2 (split_times exact_arith (0, 1015) (split_count exact_arith (0, 1015) 100)))
   \<and> split_bins exact_arith scenario_b_packer 100 = Inl ValueError
   \<and> ligolw_cafe exact_arith scenario_b_cache scenario_b_vectors (Some 100) = Inl ValueError"
proof -
  have n: "split_count exact_arith (0, 1015) 100 = 11" by code_simp
  then have h1: "3 \<le> split_count exact_arith (0, 1015) 100" by simp
  have h2: "list_all (\<lambda>t. 10 \<le> t \<and> t \<le> 1005)
        (take 2 (split_times exact_arith (0, 1015) (split_count exact_arith (0, 1015) 100)))"
    by code_simp
  from split_raises_on_coverage_hole[OF h1 h2] n h1 h2 show ?thesis by simp
qed

section \<open>Properties of the driver\<close>

lemma sl_intersects_Nil: "\<not> sl_intersects xs []"
  by (simp add: sl_intersects_def list_ex_iff)

lemma no_segment_data_dropped:
  assumes "no_segment_data c"
  shows "\<not> kept coverage c"
proof (cases "seglists c")
  case Nil
  then show ?thesis by (simp add: kept_def intersects_all_def to_segmentlistdict_def)
next
  case (Cons a rest)
  obtain k xs where a: "a = (k, xs)" by (cases a) auto
  from assms Cons a have "xs = []" by (simp add: no_segment_data_def)
  then have "\<not> (case sld_get coverage k of None \<Rightarrow> False | Some ys \<Rightarrow> sl_intersects ys xs)"
    by (simp add: sl_intersects_Nil split: option.splits)
  then show ?thesis using Cons a
    by (simp add: kept_def intersects_all_def to_segmentlistdict_def)
qed

lemma filter_cache_kept: "filter_cache coverage cache = filter (kept coverage) cache"
  unfolding filter_cache_def kept_def[abs_def] by simp

lemma members_sorted_objects:
  "mset (members (map (\<lambda>b. b\<lparr>objects := sort_key segment (objects b)\<rparr>) bs)) = mset (members bs)"
  by (induction bs) (simp_all add: members_Nil members_Cons)

lemma ligolw_cafe_unfold:
  assumes "ligolw_cafe ar cache vs limit = Inr (cov, bs)"
  shows "cov = coincident_coverage cache vs"
    and "\<exists>p0 p1 p2. set_offset_vectors [] vs = Inr p0 \<and>
           pack_all p0 (sort_key segment (filter_cache cov cache)) = Inr p1 \<and>
           (case limit of None \<Rightarrow> Inr p1 | Some l \<Rightarrow> split_bins ar p1 l) = Inr p2 \<and>
           bs = map (\<lambda>b. b\<lparr>objects := sort_key segment (objects b)\<rparr>) (bins p2)"
proof -
  from assms show c: "cov = coincident_coverage cache vs"
    by (auto simp: ligolw_cafe_def Let_def split: sum.splits)
  from assms obtain p0 where p0: "set_offset_vectors [] vs = Inr p0"
    by (auto simp: ligolw_cafe_def Let_def split: sum.splits)
  from assms p0 c obtain p1 where p1: "pack_all p0 (sort_key segment (filter_cache cov cache)) = Inr p1"
    by (auto simp: ligolw_cafe_def Let_def split: sum.splits)
  from assms p0 p1 c obtain p2 where
    p2: "(case limit of None \<Rightarrow> Inr p1 | Some l \<Rightarrow> split_bins ar p1 l) = Inr p2"
    by (cases "case limit of None \<Rightarrow> Inr p1 | Some l \<Rightarrow> split_bins ar p1 l")
       (auto simp: ligolw_cafe_def Let_def)
  from assms p0 p1 p2 c have "bs = map (\<lambda>b. b\<lparr>objects := sort_key segment (objects b)\<rparr>) (bins p2)"
    by (auto simp: ligolw_cafe_def Let_def)
  with p0 p1 p2 show "\<exists>p0 p1 p2. set_offset_vectors [] vs = Inr p0 \<and>
           pack_all p0 (sort_key segment (filter_cache cov cache)) = Inr p1 \<and>
           (case limit of None \<Rightarrow> Inr p1 | Some l \<Rightarrow> split_bins ar p1 l) = Inr p2 \<and>
           bs = map (\<lambda>b. b\<lparr>objects := sort_key segment (objects b)\<rparr>) (bins p2)"
    by blast
qed

lemma split_bins_members_subset:
  assumes "split_bins ar p L = Inr p'"
  shows "set (members (bins p')) \<subseteq> set (members (bins p))"
proof -
  from assms obtain bs' where "split_loop ar (max_gap p) (offset_vectors p) L (bins p) = Inr bs'" "bins p' = bs'"
    by (auto simp: split_bins_def split: sum.splits)
  then show ?thesis using split_loop_members_subset by simp
qed

lemma ligolw_cafe_members:
  assumes "ligolw_cafe ar cache vs limit = Inr (cov, bs)"
  shows "set (members bs) \<subseteq> set (filter (kept cov) cache)"
    and "limit = None \<Longrightarrow> mset (members bs) = mset (filter (kept cov) cache)"
proof -
  from ligolw_cafe_unfold(2)[OF assms] obtain p0 p1 p2 where
    p0: "set_offset_vectors [] vs = Inr p0" and
    p1: "pack_all p0 (sort_key segment (filter_cache cov cache)) = Inr p1" and
    p2: "(case limit of None \<Rightarrow> Inr p1 | Some l \<Rightarrow> split_bins ar p1 l) = Inr p2" and
    bs: "bs = map (\<lambda>b. b\<lparr>objects := sort_key segment (objects b)\<rparr>) (bins p2)"
    by blast
  have "bins p0 = []" using p0 by (rule set_offset_vectors_bins)
  with pack_all_partition[OF p1]
  have m1: "mset (members (bins p1)) = mset (filter (kept cov) cache)"
    by (simp add: members_Nil filter_cache_kept)
  have mb: "mset (members bs) = mset (members (bins p2))"
    unfolding bs by (rule members_sorted_objects)
  have sub: "set (members (bins p2)) \<subseteq> set (members (bins p1))"
  proof (cases limit)
    case None
    with p2 show ?thesis by simp
  next
    case (Some l)
    with p2 have "split_bins ar p1 l = Inr p2" by simp
    then show ?thesis by (rule split_bins_members_subset)
  qed
  have "set (members bs) = set (members (bins p2))" using mb by (rule mset_eq_setD)
  moreover have "set (members (bins p1)) = set (filter (kept cov) cache)" using m1 by (rule mset_eq_setD)
  ultimately show "set (members bs) \<subseteq> set (filter (kept cov) cache)" using sub by simp
  show "mset (members bs) = mset (filter (kept cov) cache)" if "limit = None"
    using that p2 mb m1 by simp
qed

lemma ligolw_cafe_no_data:
  assumes "list_all no_segment_data cache" "set_offset_vectors [] vs = Inr p0"
  shows "ligolw_cafe ar cache vs limit = Inr (coincident_coverage cache vs, [])"
proof -
  have "filter (kept (coincident_coverage cache vs)) cache = []"
    using assms(1) no_segment_data_dropped by (auto simp: list_all_iff filter_empty_conv)
  then have f: "filter_cache (coincident_coverage cache vs) cache = []"
    by (simp add: filter_cache_kept)
  have b: "bins p0 = []" using assms(2) by (rule set_offset_vectors_bins)
  have s: "(case limit of None \<Rightarrow> Inr p0 | Some l \<Rightarrow> split_bins ar p0 l) = Inr p0"
    using b by (cases limit) (simp_all add: split_bins_def)
  show ?thesis
    using assms(2) f s b by (simp add: ligolw_cafe_def Let_def)
qed

text \<open>
  Claim C7. When \<^verbatim>\<open>ligolw_cafe\<close> returns, the coverage it returns is the coincident
  coverage of the cache, every member of an output bin is an entry of the cache that the
  filter keeps, and without a split the members of the output bins are exactly the kept
  entries. An entry with no segment data is never kept, whatever the coverage, and
  testing it raises nothing: a cache of such entries gives no bins and no error.
\<close>

theorem filter_keeps_coincident:
  "(ligolw_cafe ar cache vs limit = Inr (cov, bs) \<longrightarrow>
      cov = coincident_coverage cache vs \<and>
      set (members bs) \<subseteq> set (filter (kept cov) cache) \<and>
      (limit = None \<longrightarrow> mset (members bs) = mset (filter (kept cov) cache))) \<and>
   (no_segment_data c \<longrightarrow> \<not> kept coverage c) \<and>
   (list_all no_segment_data cache \<and> set_offset_vectors [] vs = Inr p0 \<longrightarrow>
      ligolw_cafe ar cache vs limit = Inr (coincident_coverage cache vs, []))"
proof (intro conjI impI)
  assume a: "ligolw_cafe ar cache vs limit = Inr (cov, bs)"
  show "cov = coincident_coverage cache vs" using a by (rule ligolw_cafe_unfold(1))
  show "set (members bs) \<subseteq> set (filter (kept cov) cache)" using a by (rule ligolw_cafe_members(1))
  show "mset (members bs) = mset (filter (kept cov) cache)" if "limit = None"
    using a that by (rule ligolw_cafe_members(2))
next
  assume "no_segment_data c"
  then show "\<not> kept coverage c" by (rule no_segment_data_dropped)
next
  assume "list_all no_segment_data cache \<and> set_offset_vectors [] vs = Inr p0"
  then show "ligolw_cafe ar cache vs limit = Inr (coincident_coverage cache vs, [])"
    using ligolw_cafe_no_data by blast
qed

theorem filter_keeps_coincident_witness:
  "\<exists>cov bs.
     ligolw_cafe exact_arith scenario_cache [[(''X'', 0), (''Y'', 0)]] None = Inr (cov, bs)
     \<and> cov = coincident_coverage scenario_cache [[(''X'', 0), (''Y'', 0)]]
     \<and> mset (members bs) = mset (filter (kept cov) scenario_cache)
     \<and> map url (members bs) = [''e1'', ''e2'']
     \<and> no_segment_data no_data_entry
     \<and> \<not> kept cov no_data_entry
     \<and> list_all no_segment_data [no_data_entry]
     \<and> set_offset_vectors [] [[(''X'', 0), (''Y'', 0)]] = Inr zero_lag_XY
     \<and> ligolw_cafe exact_arith [no_data_entry] [[(''X'', 0), (''Y'', 0)]] None
         = Inr (coincident_coverage [no_data_entry] [[(''X'', 0), (''Y'', 0)]], [])"
proof -
  let ?vs = "[[(''X'', 0), (''Y'', 0)]] :: offset_vector list"
  have "\<not> isl (ligolw_cafe exact_arith scenario_cache ?vs None)" by code_simp
  then obtain cov bs where r: "ligolw_cafe exact_arith scenario_cache ?vs None = Inr (cov, bs)"
    by (cases "ligolw_cafe exact_arith scenario_cache ?vs None") auto
  have "map url (members (snd (projr (ligolw_cafe exact_arith scenario_cache ?vs None)))) = [''e1'', ''e2'']"
    by code_simp
  with r have urls: "map url (members bs) = [''e1'', ''e2'']" by simp
  have nd: "no_segment_data no_data_entry" by code_simp
  have nds: "list_all no_segment_data [no_data_entry]" using nd by simp
  have p0: "set_offset_vectors [] ?vs = Inr zero_lag_XY"
    unfolding zero_lag_XY_def by code_simp
  note inst1 = filter_keeps_coincident[where ar = exact_arith and cache = scenario_cache and vs = ?vs and limit = None
      and cov = cov and bs = bs and c = no_data_entry and coverage = cov and ?p0.0 = zero_lag_XY]
  note inst2 = filter_keeps_coincident[where ar = exact_arith and cache = "[no_data_entry]" and vs = ?vs and limit = None
      and cov = cov and bs = bs and c = no_data_entry and coverage = cov and ?p0.0 = zero_lag_XY]
  have c1: "cov = coincident_coverage scenario_cache ?vs"
    and c2: "mset (members bs) = mset (filter (kept cov) scenario_cache)"
    using inst1[THEN conjunct1] r by blast+
  have c3: "\<not> kept cov no_data_entry"
    using inst1[THEN conjunct2, THEN conjunct1] nd by blast
  have c4: "ligolw_cafe exact_arith [no_data_entry] ?vs None = Inr (coincident_coverage [no_data_entry] ?vs, [])"
    using inst2[THEN conjunct2, THEN conjunct2] nds p0 by blast
  show ?thesis
    by (intro exI[of _ cov] exI[of _ bs] conjI r c1 c2 urls nd c3 nds p0 c4)
qed

section \<open>The bail-out of \<^verbatim>\<open>pack\<close> on overlapping extents\<close>

text \<open>
  Claim C5 does not hold of the code. The packer configured with the one offset vector
  \<open>{X: 0, Y: 100, Z: 50}\<close> has \<^verbatim>\<open>max_gap = 100\<close>; packing the entries \<open>a\<close> to \<open>d\<close> in
  time order leaves the bins of extents \<open>(-40, 500)\<close> and \<open>(0, 55)\<close>, sorted by extent.
  For the entry \<open>e = Y[350, 360)\<close> the scan starts at the last bin, finds
  \<open>55 < 350 - 100\<close> and stops, with no matching bin; the bin of extent \<open>(-40, 500)\<close>,
  which the scan never visits, matches the candidate under the offset vector.
\<close>

theorem bail_out_skips_matching_bin:
  "set_offset_vectors [] [slide_vector] = Inr slide_packer \<and>
   pack_all slide_packer (take 4 slide_cache) = Inr (slide_packer\<lparr>bins := slide_bins\<rparr>) \<and>
   sorted_wrt (\<lambda>a b. extent_le (extent a) (extent b)) slide_bins \<and>
   bin_add LALCacheBin (entry ''e'' ''Y'' 350 360) (to_segmentlistdict (entry ''e'' ''Y'' 350 360))
     = Inr candidate \<and>
   scan_bins 100 [slide_vector] (length slide_bins) slide_bins candidate []
     = Inr (slide_bins, candidate, []) \<and>
   fst (try_vectors [slide_vector] (bin_size candidate) (bin_size (slide_bins ! 0))) \<and>
   matching_bins (slide_packer\<lparr>bins := slide_bins\<rparr>) (entry ''e'' ''Y'' 350 360) = []"
  by code_simp

text \<open>
  Claim C1 does not hold of the code. On the same six entries and offset vector
  \<^verbatim>\<open>ligolw_cafe\<close> returns three bins. The entries \<open>d = X[60, 500)\<close> and
  \<open>f = X[450, 460)\<close> both survive the filter and are coincident on the instrument \<open>X\<close>,
  which the vector names, and they are members of different bins.
\<close>

theorem coincident_pair_separated:
  "\<not> isl (ligolw_cafe exact_arith slide_cache [slide_vector] None) \<and>
   map (map url \<circ> objects) (snd (projr (ligolw_cafe exact_arith slide_cache [slide_vector] None))) =
     [[''a'', ''d''], [''b'', ''c''], [''e'', ''f'']] \<and>
   kept (fst (projr (ligolw_cafe exact_arith slide_cache [slide_vector] None))) (entry ''d'' ''X'' 60 500) \<and>
   kept (fst (projr (ligolw_cafe exact_arith slide_cache [slide_vector] None))) (entry ''f'' ''X'' 450 460) \<and>
   coincident_on slide_vector ''X'' (entry ''d'' ''X'' 60 500) (entry ''f'' ''X'' 450 460) \<and>
   \<not> same_bin (snd (projr (ligolw_cafe exact_arith slide_cache [slide_vector] None)))
        (entry ''d'' ''X'' 60 500) (entry ''f'' ''X'' 450 460)"
  by code_simp

end
